theory Spec2Isabelle
  imports Complex_Main "HOL-Library.AList"
begin

section \<open>The derived hierarchy view (mol-plugin-state/manager/structure/hierarchy.ts)\<close>

text \<open>
  A reference id is the string \<open>r.cell.transform.ref\<close> of a hierarchy entry. The entry
  types are declared in \<open>hierarchy-state\<close>; only the fields the manager reads are kept:
  the cell's reference id, \<open>models\<close> of a trajectory, \<open>structures\<close> of a model,
  \<open>components\<close> of a structure and \<open>key\<close> of a component (a string or undefined).
\<close>

type_synonym ref = string

record StructureComponentRef =
  c_cell_ref :: ref
  key :: "string option"

record StructureRef =
  s_cell_ref :: ref
  components :: "StructureComponentRef list"

record ModelRef =
  m_cell_ref :: ref
  structures :: "StructureRef list"

record TrajectoryRef =
  t_cell_ref :: ref
  models :: "ModelRef list"

text \<open>
  \<open>HierarchyRef\<close> is the union of the entry types. The selection lists of the manager
  are held at this type: \<open>syncCurrent\<close> fills them from \<open>hierarchy.refs.get(..) as T\<close>,
  an unchecked cast, so at run time a list holds whatever the map returns.
\<close>

datatype HierarchyRef =
    TrajectoryH TrajectoryRef
  | ModelH ModelRef
  | StructureH StructureRef
  | ComponentH StructureComponentRef

fun cell_ref :: "HierarchyRef \<Rightarrow> ref" where
  "cell_ref (TrajectoryH t) = t_cell_ref t"
| "cell_ref (ModelH m) = m_cell_ref m"
| "cell_ref (StructureH s) = s_cell_ref s"
| "cell_ref (ComponentH c) = c_cell_ref c"

record StructureHierarchy =
  trajectories :: "TrajectoryRef list"
  all_models :: "ModelRef list"
  all_structures :: "StructureRef list"
  refs :: "ref \<rightharpoonup> HierarchyRef"

text \<open>The value published on \<open>behaviors.selection\<close>.\<close>

record SelectionEvent =
  ev_hierarchy :: StructureHierarchy
  ev_trajectories :: "HierarchyRef list"
  ev_models :: "HierarchyRef list"
  ev_structures :: "HierarchyRef list"

text \<open>
  The manager: \<open>state.hierarchy\<close>, the three lists of \<open>state.selection\<close>, the private
  \<open>nextSelection\<close> set, the private cache \<open>_currentSelectionSet\<close> (undefined is
  \<open>None\<close>) and the latest value of \<open>behaviors.selection\<close>. The cache
  \<open>_currentComponentGroups\<close> is reset at the same places as \<open>_currentSelectionSet\<close> and
  is read by no function modelled here; it is left out.
\<close>

record Manager =
  hierarchy :: StructureHierarchy
  sel_trajectories :: "HierarchyRef list"
  sel_models :: "HierarchyRef list"
  sel_structures :: "HierarchyRef list"
  nextSelection :: "ref set"
  currentSelectionSet :: "ref set option"
  behavior_selection :: SelectionEvent

subsection \<open>syncCurrent\<close>

text \<open>
  \<open>[all[0]]\<close> when \<open>all\<close> is not empty, \<open>[]\<close> otherwise: the expression
  \<open>all.length > 0 ? [all[0]] : []\<close> that closes each of the three branches.
\<close>

fun first_or_empty :: "'a list \<Rightarrow> 'a list" where
  "first_or_empty [] = []"
| "first_or_empty (x # xs) = [x]"

text \<open>The second loop: every entry of \<open>current\<close> that the new \<open>refs\<close> map still has.\<close>

fun lookup_current :: "(ref \<rightharpoonup> HierarchyRef) \<Rightarrow> HierarchyRef list \<Rightarrow> HierarchyRef list" where
  "lookup_current m [] = []"
| "lookup_current m (c # cs) =
     (case m (cell_ref c) of
        Some r \<Rightarrow> r # lookup_current m cs
      | None \<Rightarrow> lookup_current m cs)"

definition syncCurrent ::
  "ref set \<Rightarrow> StructureHierarchy \<Rightarrow> HierarchyRef list \<Rightarrow> HierarchyRef list \<Rightarrow> HierarchyRef list" where
  "syncCurrent next h current all =
     (if next \<noteq> {} then
        (let newCurrent = filter (\<lambda>r. cell_ref r \<in> next) all
         in if newCurrent = [] then first_or_empty all else newCurrent)
      else if current = [] then first_or_empty all
      else
        (let newCurrent = lookup_current (refs h) current
         in if newCurrent = [] then first_or_empty all else newCurrent))"

subsection \<open>sync\<close>

text \<open>
  \<open>buildStructureHierarchy\<close> lives in \<open>hierarchy-state\<close>; its result is the argument
  \<open>update\<close> of \<open>sync\<close>.
\<close>

record HierarchyUpdate =
  u_hierarchy :: StructureHierarchy
  added :: "HierarchyRef list"
  updated :: "HierarchyRef list"
  removed :: "HierarchyRef list"

definition sync :: "Manager \<Rightarrow> HierarchyUpdate \<Rightarrow> Manager" where
  "sync m update =
     (if added update = [] \<and> updated update = [] \<and> removed update = [] then m
      else
        (let h = u_hierarchy update;
             ts = syncCurrent (nextSelection m) h (sel_trajectories m) (map TrajectoryH (trajectories h));
             ms = syncCurrent (nextSelection m) h (sel_models m) (map ModelH (all_models h));
             ss = syncCurrent (nextSelection m) h (sel_structures m) (map StructureH (all_structures h))
         in m\<lparr>currentSelectionSet := None,
               nextSelection := {},
               hierarchy := h,
               sel_trajectories := ts, sel_models := ms, sel_structures := ss,
               behavior_selection :=
                 \<lparr>ev_hierarchy = h, ev_trajectories = ts, ev_models = ms, ev_structures = ss\<rparr>\<rparr>))"

subsection \<open>updateCurrent\<close>

datatype action = Add | Remove

text \<open>
  The getter \<open>seletionSet\<close> (spelled as in the source) returns the cached set when there
  is one, and otherwise builds it from the three selection lists and caches it.
\<close>

definition selection_refs :: "Manager \<Rightarrow> ref set" where
  "selection_refs m =
     set (map cell_ref (sel_trajectories m)) \<union> set (map cell_ref (sel_models m))
       \<union> set (map cell_ref (sel_structures m))"

definition seletionSet :: "Manager \<Rightarrow> ref set \<times> Manager" where
  "seletionSet m =
     (case currentSelectionSet m of
        Some s \<Rightarrow> (s, m)
      | None \<Rightarrow> (selection_refs m, m\<lparr>currentSelectionSet := Some (selection_refs m)\<rparr>))"

text \<open>
  The three nested loops over \<open>hierarchy.trajectories\<close>, one result list each.
  \<open>SetUtils.union\<close> and \<open>SetUtils.difference\<close> (\<open>mol-util/set\<close>) are the union and the
  difference of two sets.
\<close>

definition picked_trajectories :: "ref set \<Rightarrow> StructureHierarchy \<Rightarrow> HierarchyRef list" where
  "picked_trajectories S h =
     map TrajectoryH (filter (\<lambda>t. t_cell_ref t \<in> S) (trajectories h))"

definition picked_models :: "ref set \<Rightarrow> StructureHierarchy \<Rightarrow> HierarchyRef list" where
  "picked_models S h =
     map ModelH (filter (\<lambda>m. m_cell_ref m \<in> S) (concat (map models (trajectories h))))"

definition picked_structures :: "ref set \<Rightarrow> StructureHierarchy \<Rightarrow> HierarchyRef list" where
  "picked_structures S h =
     map StructureH (filter (\<lambda>s. s_cell_ref s \<in> S)
       (concat (map structures (concat (map models (trajectories h))))))"

definition updateCurrent :: "Manager \<Rightarrow> HierarchyRef list \<Rightarrow> action \<Rightarrow> Manager" where
  "updateCurrent m0 rs act =
     (let (cur, m) = seletionSet m0;
          h = hierarchy m;
          S = (case act of
                 Add \<Rightarrow> cur \<union> set (map cell_ref rs)
               | Remove \<Rightarrow> cur - set (map cell_ref rs));
          ts = picked_trajectories S h;
          ms = picked_models S h;
          ss = picked_structures S h
      in m\<lparr>currentSelectionSet := None,
            sel_trajectories := ts, sel_models := ms, sel_structures := ss,
            behavior_selection :=
              \<lparr>ev_hierarchy = h, ev_trajectories = ts, ev_models = ms, ev_structures = ss\<rparr>\<rparr>)"

text \<open>
  The constructor's state: an empty hierarchy and an empty selection.
\<close>

definition empty_hierarchy :: StructureHierarchy where
  "empty_hierarchy = \<lparr>trajectories = [], all_models = [], all_structures = [], refs = Map.empty\<rparr>"

definition initial_manager :: Manager where
  "initial_manager =
     \<lparr>hierarchy = empty_hierarchy,
      sel_trajectories = [], sel_models = [], sel_structures = [],
      nextSelection = {}, currentSelectionSet = None,
      behavior_selection =
        \<lparr>ev_hierarchy = empty_hierarchy, ev_trajectories = [], ev_models = [], ev_structures = []\<rparr>\<rparr>"

subsection \<open>getComponentGroups\<close>

text \<open>
  With two or more structures the source keeps a list \<open>groups\<close> of arrays and a map from
  a key to one of these arrays; \<open>component.push(c)\<close> on the array found in the map
  changes the array inside \<open>groups\<close>, the same object. The model holds the arrays in
  \<open>groups\<close> and lets the map send a key to the position of its array there.
\<close>

type_synonym group_state = "StructureComponentRef list list \<times> (string \<rightharpoonup> nat)"

text \<open>A key is falsy when it is undefined or the empty string.\<close>

fun falsy_key :: "string option \<Rightarrow> bool" where
  "falsy_key None = True"
| "falsy_key (Some k) = (k = [])"

definition add_component :: "group_state \<Rightarrow> StructureComponentRef \<Rightarrow> group_state" where
  "add_component st c =
     (let (groups, idx) = st in
      if falsy_key (key c) then st
      else
        (let k = the (key c) in
         case idx k of
           None \<Rightarrow> (groups @ [[c]], idx(k \<mapsto> length groups))
         | Some i \<Rightarrow> (groups[i := groups ! i @ [c]], idx)))"

definition add_structure :: "group_state \<Rightarrow> StructureRef \<Rightarrow> group_state" where
  "add_structure st s = foldl add_component st (components s)"

fun getComponentGroups :: "StructureRef list \<Rightarrow> StructureComponentRef list list" where
  "getComponentGroups [] = []"
| "getComponentGroups [s] = map (\<lambda>c. [c]) (components s)"
| "getComponentGroups ss = fst (foldl add_structure ([], Map.empty) ss)"

text \<open>
  What the third case computes, in the words of a specification: one group per truthy key,
  in the order in which the keys are first met, each holding the components with that key
  in their order.
\<close>

fun first_occurrences :: "'a list \<Rightarrow> 'a list" where
  "first_occurrences [] = []"
| "first_occurrences (x # xs) = x # filter (\<lambda>y. y \<noteq> x) (first_occurrences xs)"

definition truthy_keys :: "StructureComponentRef list \<Rightarrow> string list" where
  "truthy_keys cs = map (\<lambda>c. the (key c)) (filter (\<lambda>c. \<not> falsy_key (key c)) cs)"

definition groups_by_key :: "StructureComponentRef list \<Rightarrow> StructureComponentRef list list" where
  "groups_by_key cs =
     map (\<lambda>k. filter (\<lambda>c. key c = Some k) cs) (first_occurrences (truthy_keys cs))"

text \<open>The loop invariant: after the components \<open>cs\<close>, the arrays and the key map.\<close>

definition group_inv :: "StructureComponentRef list \<Rightarrow> group_state \<Rightarrow> bool" where
  "group_inv cs st =
     (fst st = groups_by_key cs \<and>
      (\<forall>k i. snd st k = Some i \<longleftrightarrow>
         (i < length (first_occurrences (truthy_keys cs)) \<and> first_occurrences (truthy_keys cs) ! i = k)))"

section \<open>The test transforms (the second part of construction.ts)\<close>

text \<open>
  \<open>TypeClass\<close>, \<open>TypeInfo\<close> and \<open>ObjProps\<close> as declared. A label is a template string
  with a number in it (\<open>`Square a=${p.a}`\<close>); the model keeps the number rather than its
  decimal text. Numbers are reals: the values of the scenario (10, 15, 100, 225) are
  exact as doubles.
\<close>

datatype TypeClass = RootClass | ShapeClass | PropClass

record TypeInfo =
  ti_name :: string
  ti_class :: TypeClass

datatype Label = Text string | SquareLabel real | CircleLabel real

record ObjProps =
  label :: Label

record SquareData =
  sq_a :: real

record CircleData =
  circ_r :: real

record AreaData =
  volume :: real

text \<open>The four classes made by \<open>_obj\<close>: an object holds its props and its data.\<close>

datatype ObjType = RootT | SquareT | CircleT | AreaT

datatype StateObject =
    Root ObjProps
  | Square ObjProps SquareData
  | Circle ObjProps CircleData
  | Area ObjProps AreaData

fun type_of :: "StateObject \<Rightarrow> ObjType" where
  "type_of (Root _) = RootT"
| "type_of (Square _ _) = SquareT"
| "type_of (Circle _ _) = CircleT"
| "type_of (Area _ _) = AreaT"

fun type_tag :: "ObjType \<Rightarrow> string" where
  "type_tag RootT = ''root''"
| "type_tag SquareT = ''square''"
| "type_tag CircleT = ''circle''"
| "type_tag AreaT = ''volume''"

fun type_info :: "ObjType \<Rightarrow> TypeInfo" where
  "type_info RootT = \<lparr>ti_name = ''Root'', ti_class = RootClass\<rparr>"
| "type_info SquareT = \<lparr>ti_name = ''Square'', ti_class = ShapeClass\<rparr>"
| "type_info CircleT = \<lparr>ti_name = ''Circle'', ti_class = ShapeClass\<rparr>"
| "type_info AreaT = \<lparr>ti_name = ''Volume'', ti_class = PropClass\<rparr>"

text \<open>
  A thrown \<open>Error\<close> with its message, and \<open>Transformer.UpdateResult\<close>. The source uses
  only \<open>Updated\<close>; the other two values are those the specification names.
\<close>

datatype TransformError = JsError string

datatype UpdateResult = Unchanged | Updated | Recreate

text \<open>
  A transform definition, as passed to \<open>_transform<A, B, P>\<close>: \<open>'p\<close> is the parameter
  type \<open>P\<close>. \<open>apply\<close> takes the parent object \<open>a\<close> and the parameters. \<open>update\<close> takes
  \<open>a\<close>, the object \<open>b\<close> made before, the old and the new parameters; it changes \<open>b\<close> in
  place and returns an \<open>UpdateResult\<close>, so the model returns the result with the changed
  \<open>b\<close>. The data of a Square or Circle is the parameter object it was made from; the
  model holds values and does not follow this sharing.
\<close>

record 'p Transformer =
  t_name :: string
  t_from :: "ObjType list"
  t_to :: "ObjType list"
  t_apply :: "StateObject \<Rightarrow> 'p \<Rightarrow> TransformError + StateObject"
  t_update :: "StateObject \<Rightarrow> StateObject \<Rightarrow> 'p \<Rightarrow> 'p \<Rightarrow> TransformError + (UpdateResult \<times> StateObject)"

text \<open>
  The type parameter \<open>B\<close> of a transform fixes the class of \<open>b\<close> in \<open>update\<close>; an object
  of another class cannot be passed by a well-typed caller, and the model answers with
  this error there.
\<close>

definition ill_typed :: TransformError where
  "ill_typed = JsError ''ill-typed object''"

fun CreateSquare_update ::
  "StateObject \<Rightarrow> StateObject \<Rightarrow> SquareData \<Rightarrow> SquareData \<Rightarrow> TransformError + (UpdateResult \<times> StateObject)" where
  "CreateSquare_update a (Square props d) oldParams p =
     Inr (Updated, Square (props\<lparr>label := SquareLabel (sq_a p)\<rparr>) (d\<lparr>sq_a := sq_a p\<rparr>))"
| "CreateSquare_update a b oldParams p = Inl ill_typed"

definition CreateSquare :: "SquareData Transformer" where
  "CreateSquare =
     \<lparr>t_name = ''create-square'',
      t_from = [RootT],
      t_to = [SquareT],
      t_apply = (\<lambda>a p. Inr (Square \<lparr>label = SquareLabel (sq_a p)\<rparr> p)),
      t_update = CreateSquare_update\<rparr>"

fun CreateCircle_update ::
  "StateObject \<Rightarrow> StateObject \<Rightarrow> CircleData \<Rightarrow> CircleData \<Rightarrow> TransformError + (UpdateResult \<times> StateObject)" where
  "CreateCircle_update a (Circle props d) oldParams p =
     Inr (Updated, Circle (props\<lparr>label := CircleLabel (circ_r p)\<rparr>) (d\<lparr>circ_r := circ_r p\<rparr>))"
| "CreateCircle_update a b oldParams p = Inl ill_typed"

definition CreateCircle :: "CircleData Transformer" where
  "CreateCircle =
     \<lparr>t_name = ''create-circle'',
      t_from = [RootT],
      t_to = [SquareT],
      t_apply = (\<lambda>a p. Inr (Circle \<lparr>label = CircleLabel (circ_r p)\<rparr> p)),
      t_update = CreateCircle_update\<rparr>"

text \<open>
  \<open>Math.PI\<close> is the double nearest to the number pi, here as the rational it is. The
  products are taken in the reals; on the circle branch a double product may round.
\<close>

definition Math_PI :: real where
  "Math_PI = 884279719003555 / 281474976710656"

text \<open>\<open>CaclArea\<close> (spelled as in the source) has the parameter type \<open>{}\<close>.\<close>

fun CaclArea_apply :: "StateObject \<Rightarrow> unit \<Rightarrow> TransformError + StateObject" where
  "CaclArea_apply (Square _ d) p = Inr (Area \<lparr>label = Text ''Area''\<rparr> \<lparr>volume = sq_a d * sq_a d\<rparr>)"
| "CaclArea_apply (Circle _ d) p = Inr (Area \<lparr>label = Text ''Area''\<rparr> \<lparr>volume = circ_r d * circ_r d * Math_PI\<rparr>)"
| "CaclArea_apply a p = Inl (JsError ''Unknown object type.'')"

fun set_volume :: "StateObject \<Rightarrow> real \<Rightarrow> TransformError + (UpdateResult \<times> StateObject)" where
  "set_volume (Area props d) v = Inr (Updated, Area props (d\<lparr>volume := v\<rparr>))"
| "set_volume b v = Inl ill_typed"

fun CaclArea_update ::
  "StateObject \<Rightarrow> StateObject \<Rightarrow> unit \<Rightarrow> unit \<Rightarrow> TransformError + (UpdateResult \<times> StateObject)" where
  "CaclArea_update (Square _ d) b oldParams p = set_volume b (sq_a d * sq_a d)"
| "CaclArea_update (Circle _ d) b oldParams p = set_volume b (circ_r d * circ_r d * Math_PI)"
| "CaclArea_update a b oldParams p = Inl (JsError ''Unknown object type.'')"

definition CaclArea :: "unit Transformer" where
  "CaclArea =
     \<lparr>t_name = ''calc-area'',
      t_from = [SquareT, CircleT],
      t_to = [AreaT],
      t_apply = CaclArea_apply,
      t_update = CaclArea_update\<rparr>"

section \<open>Registry, state tree and builder\<close>

text \<open>
  The library \<open>mol-state\<close> (\<open>State\<close>, \<open>StateTree\<close>, \<open>Transformer.factory\<close>,
  \<open>StateSelection\<close>) is imported by the sources above and is not among them. Its parts
  are modelled from the specification, each marked so.
\<close>

text \<open>
  Modelled from the spec: a node's parameter value, a plain structured value that the
  registry treats as opaque. \<open>mol-state\<close> is missing; the three shapes are the parameter
  types of the test transforms.
\<close>

datatype Params = SquareParams SquareData | CircleParams CircleData | NoParams

text \<open>
  Modelled from the spec: validation of an opaque parameter value against the parameter
  schema of a transform definition (\<open>mol-state\<close> is missing). A registered definition
  takes any parameter value and fails on one of the wrong shape.
\<close>

fun square_schema :: "Params \<Rightarrow> SquareData option" where
  "square_schema (SquareParams p) = Some p"
| "square_schema _ = None"

text \<open>
  Modelled from the spec: the parameter schema of \<open>create-circle\<close>
  (\<open>mol-state\<close> is missing).
\<close>

fun circle_schema :: "Params \<Rightarrow> CircleData option" where
  "circle_schema (CircleParams p) = Some p"
| "circle_schema _ = None"

text \<open>
  Modelled from the spec: the parameter schema of \<open>calc-area\<close>, whose
  parameters are \<open>{}\<close> (\<open>mol-state\<close> is missing).
\<close>

fun empty_schema :: "Params \<Rightarrow> unit option" where
  "empty_schema NoParams = Some ()"
| "empty_schema _ = None"

text \<open>
  Modelled from the spec: the error of a parameter value that fails its schema
  (\<open>mol-state\<close> is missing).
\<close>

definition invalid_params :: TransformError where
  "invalid_params = JsError ''invalid parameters''"

text \<open>
  Modelled from the spec: a transform definition as the registry holds it (kind
  identifier, input and output type sets, parameter schema, apply and update);
  \<open>Transformer.factory\<close> of \<open>mol-state\<close> is missing.
\<close>

definition registered :: "(Params \<Rightarrow> 'p option) \<Rightarrow> 'p Transformer \<Rightarrow> Params Transformer" where
  "registered schema T =
     \<lparr>t_name = t_name T,
      t_from = t_from T,
      t_to = t_to T,
      t_apply = (\<lambda>a p. case schema p of None \<Rightarrow> Inl invalid_params | Some q \<Rightarrow> t_apply T a q),
      t_update = (\<lambda>a b old new.
         case schema old of
           None \<Rightarrow> Inl invalid_params
         | Some q \<Rightarrow> (case schema new of None \<Rightarrow> Inl invalid_params | Some q' \<Rightarrow> t_update T a b q q'))\<rparr>"

text \<open>
  Modelled from the spec: the transform of the root node (\<open>mol-state\<close> is missing). It
  declares the output type Root and is never applied: the root object is given when the
  state is created.
\<close>

definition RootTransform :: "Params Transformer" where
  "RootTransform =
     \<lparr>t_name = ''root'',
      t_from = [],
      t_to = [RootT],
      t_apply = (\<lambda>a p. Inl (JsError ''the root is not applied'')),
      t_update = (\<lambda>a b old new. Inr (Unchanged, b))\<rparr>"

text \<open>
  Modelled from the spec: the structural and registry errors of section 7 (\<open>mol-state\<close>
  is missing).
\<close>

datatype StructuralError =
  UnknownParent | UnknownRef | DuplicateRef | Cycle | TypeMismatch | NotFound | DuplicateKind

text \<open>
  Modelled from the spec: the transform registry of section 4.1 (\<open>mol-state\<close> is
  missing), a catalog from kind identifier to definition, append-only.
\<close>

type_synonym Registry = "(string \<times> Params Transformer) list"

text \<open>
  Modelled from the spec: \<open>lookup(kind)\<close> of the registry
  (\<open>mol-state\<close> is missing); \<open>None\<close> is NotFound.
\<close>

definition lookup :: "Registry \<Rightarrow> string \<Rightarrow> Params Transformer option" where
  "lookup reg kind = map_of reg kind"

text \<open>
  Modelled from the spec: \<open>register(definition)\<close> (\<open>mol-state\<close>
  is missing): DuplicateKind if the kind identifier exists.
\<close>

definition register :: "Registry \<Rightarrow> Params Transformer \<Rightarrow> StructuralError + Registry" where
  "register reg d =
     (if lookup reg (t_name d) \<noteq> None then Inl DuplicateKind else Inr (reg @ [(t_name d, d)]))"

text \<open>
  Modelled from the spec: \<open>applicableTo(objectType)\<close>
  (\<open>mol-state\<close> is missing): the kinds that accept the type as input.
\<close>

definition applicableTo :: "Registry \<Rightarrow> ObjType \<Rightarrow> string list" where
  "applicableTo reg T = map fst (filter (\<lambda>kd. T \<in> set (t_from (snd kd))) reg)"

text \<open>
  Modelled from the spec: the registry after the three \<open>_transform\<close> calls of
  construction.ts, with the root transform first (\<open>Transformer.factory\<close> is missing).
\<close>

definition test_registry :: Registry where
  "test_registry =
     [(''root'', RootTransform),
      (''create-square'', registered square_schema CreateSquare),
      (''create-circle'', registered circle_schema CreateCircle),
      (''calc-area'', registered empty_schema CaclArea)]"

text \<open>
  Modelled from the spec: the tree node and the state tree of section 3 (\<open>StateTree\<close> of
  \<open>mol-state\<close> is missing). The two mappings are association lists in insertion order.
\<close>

record Flags =
  collapsed :: bool
  hidden :: bool
  locked :: bool
  ghost :: bool

text \<open>
  Modelled from the spec: the tree node of section 3 (\<open>StateTransform\<close> of
  \<open>mol-state\<close> is missing): reference id, kind, parameters, version and
  flags.
\<close>

record TreeNode =
  n_ref :: ref
  n_kind :: string
  n_params :: Params
  n_version :: nat
  n_flags :: Flags

text \<open>
  Modelled from the spec: the state tree of section 3 (\<open>StateTree\<close> is
  missing): the root ref, the node mapping and the child mapping.
\<close>

record StateTree =
  rootRef :: ref
  nodes :: "(ref \<times> TreeNode) list"
  children :: "(ref \<times> ref list) list"

text \<open>
  Modelled from the spec: the decoration flags of a new node, none set
  (\<open>StateTree\<close> is missing).
\<close>

definition no_flags :: Flags where
  "no_flags = \<lparr>collapsed = False, hidden = False, locked = False, ghost = False\<rparr>"

text \<open>Modelled from the spec: the query \<open>node(ref)\<close> (\<open>StateTree\<close> is missing).\<close>

definition node :: "StateTree \<Rightarrow> ref \<Rightarrow> TreeNode option" where
  "node t r = map_of (nodes t) r"

text \<open>Modelled from the spec: the query \<open>children(ref)\<close>, ordered (\<open>StateTree\<close> is missing).\<close>

definition children_of :: "StateTree \<Rightarrow> ref \<Rightarrow> ref list" where
  "children_of t r = (case map_of (children t) r of None \<Rightarrow> [] | Some cs \<Rightarrow> cs)"

text \<open>
  Modelled from the spec: the query \<open>parent(ref)\<close> (\<open>StateTree\<close> is missing): the
  reference id whose child list holds \<open>ref\<close>, nothing for the root or an unknown ref.
\<close>

definition parent :: "StateTree \<Rightarrow> ref \<Rightarrow> ref option" where
  "parent t r = map_option fst (find (\<lambda>kc. r \<in> set (snd kc)) (children t))"

text \<open>
  Modelled from the spec: the query \<open>subtreeRefs(ref)\<close>, a pre-order traversal
  (\<open>StateTree\<close> is missing). The recursion is bounded by the number of edges of the
  tree, which no path without a repeated edge exceeds.
\<close>

fun subtree_fuel :: "nat \<Rightarrow> StateTree \<Rightarrow> ref \<Rightarrow> ref list" where
  "subtree_fuel 0 t r = [r]"
| "subtree_fuel (Suc n) t r = r # concat (map (subtree_fuel n t) (children_of t r))"

text \<open>
  Modelled from the spec: the number of edges of the tree, the bound of the traversal
  (\<open>StateTree\<close> is missing).
\<close>

definition edge_count :: "StateTree \<Rightarrow> nat" where
  "edge_count t = length (concat (map snd (children t)))"

text \<open>
  Modelled from the spec: \<open>subtreeRefs(ref)\<close> with the bound of the tree
  (\<open>StateTree\<close> is missing).
\<close>

definition subtreeRefs :: "StateTree \<Rightarrow> ref \<Rightarrow> ref list" where
  "subtreeRefs t r = subtree_fuel (edge_count t) t r"

text \<open>
  Modelled from the spec: the child relation of a tree (\<open>StateTree\<close> is missing); a
  descendant of a ref is what the transitive closure of this relation reaches from it.
  The invariant of section 3 follows, in the specification's words: the two mappings
  have the same reference ids, each once; a node is stored under its own reference id;
  exactly one root; every other node has exactly one parent; child lists hold nodes,
  each once; no cycles.
\<close>

definition child_rel :: "StateTree \<Rightarrow> (ref \<times> ref) set" where
  "child_rel t = {(p, c). c \<in> set (children_of t p)}"

text \<open>
  Modelled from the spec: the invariant of the state tree in section 3
  (\<open>StateTree\<close> is missing).
\<close>

definition valid_tree :: "StateTree \<Rightarrow> bool" where
  "valid_tree t =
     (distinct (map fst (nodes t)) \<and> distinct (map fst (children t))
      \<and> set (map fst (children t)) = set (map fst (nodes t))
      \<and> (\<forall>kn\<in>set (nodes t). n_ref (snd kn) = fst kn)
      \<and> rootRef t \<in> set (map fst (nodes t))
      \<and> rootRef t \<notin> set (concat (map snd (children t)))
      \<and> (\<forall>r\<in>set (map fst (nodes t)). r \<noteq> rootRef t \<longrightarrow>
            length (filter (\<lambda>c. c = r) (concat (map snd (children t)))) = 1)
      \<and> set (concat (map snd (children t))) \<subseteq> set (map fst (nodes t))
      \<and> acyclic (child_rel t))"

text \<open>
  Modelled from the spec: the edits of the tree builder of section 4.2 (\<open>StateTree.build\<close>
  is missing). The last argument of \<open>ApplyTransform\<close> is the reference id of the new
  node: the explicit one when the caller gives it, otherwise the one the builder
  generates; the specification does not say how, so it is an input.
\<close>

datatype Edit =
    ApplyTransform ref string Params ref
  | UpdateParams ref Params
  | Delete ref
  | Reparent ref ref

text \<open>
  Modelled from the spec: \<open>applyTransform(parentRef, kind, params, explicitRef?)\<close>
  (\<open>StateTree.build\<close> is missing). The parent's declared output types are those of the
  definition of the parent's kind.
\<close>

definition applyTransform ::
  "Registry \<Rightarrow> StateTree \<Rightarrow> ref \<Rightarrow> string \<Rightarrow> Params \<Rightarrow> ref \<Rightarrow> StructuralError + StateTree" where
  "applyTransform reg t parentRef kind params newRef =
     (case node t parentRef of
        None \<Rightarrow> Inl UnknownParent
      | Some pn \<Rightarrow>
          (case lookup reg kind of
             None \<Rightarrow> Inl NotFound
           | Some d \<Rightarrow>
               (case lookup reg (n_kind pn) of
                  None \<Rightarrow> Inl NotFound
                | Some pd \<Rightarrow>
                    if \<not> list_ex (\<lambda>T. T \<in> set (t_from d)) (t_to pd) then Inl TypeMismatch
                    else if node t newRef \<noteq> None then Inl DuplicateRef
                    else Inr (t\<lparr>nodes := nodes t @
                                  [(newRef, \<lparr>n_ref = newRef, n_kind = kind, n_params = params,
                                             n_version = 0, n_flags = no_flags\<rparr>)],
                                children := AList.update parentRef (children_of t parentRef @ [newRef])
                                              (children t) @ [(newRef, [])]\<rparr>))))"

text \<open>
  Modelled from the spec: \<open>updateParams(ref, newParams)\<close> (\<open>StateTree.updateParams\<close> is
  missing): UnknownRef if absent, otherwise new parameters and a bumped version.
\<close>

definition updateParams :: "StateTree \<Rightarrow> ref \<Rightarrow> Params \<Rightarrow> StructuralError + StateTree" where
  "updateParams t r p =
     (case node t r of
        None \<Rightarrow> Inl UnknownRef
      | Some n \<Rightarrow>
          Inr (t\<lparr>nodes := AList.update r (n\<lparr>n_params := p, n_version := Suc (n_version n)\<rparr>) (nodes t)\<rparr>))"

text \<open>
  Modelled from the spec: \<open>delete(ref)\<close> (\<open>StateTree.build\<close> is missing): removes the
  node and its subtree, no-op on the root. The specification names no failure for a
  reference id that is absent; nothing is removed then.
\<close>

definition delete :: "StateTree \<Rightarrow> ref \<Rightarrow> StateTree" where
  "delete t r =
     (if r = rootRef t \<or> node t r = None then t
      else
        (let gone = subtreeRefs t r
         in t\<lparr>nodes := filter (\<lambda>kn. fst kn \<notin> set gone) (nodes t),
               children := map (\<lambda>kc. (fst kc, removeAll r (snd kc)))
                             (filter (\<lambda>kc. fst kc \<notin> set gone) (children t))\<rparr>))"

text \<open>
  Modelled from the spec: \<open>reparent(ref, newParentRef)\<close> (\<open>StateTree.build\<close> is
  missing): Cycle if the new parent is \<open>ref\<close> or a descendant of \<open>ref\<close>; otherwise the
  node moves to the end of the new parent's child list. An absent reference id fails
  as in the other edits.
\<close>

definition reparent :: "StateTree \<Rightarrow> ref \<Rightarrow> ref \<Rightarrow> StructuralError + StateTree" where
  "reparent t r newParentRef =
     (if newParentRef \<in> set (subtreeRefs t r) then Inl Cycle
      else if node t r = None then Inl UnknownRef
      else if node t newParentRef = None then Inl UnknownParent
      else
        (let detached = map (\<lambda>kc. (fst kc, removeAll r (snd kc))) (children t)
         in Inr (t\<lparr>children :=
                     AList.update newParentRef
                       ((case map_of detached newParentRef of None \<Rightarrow> [] | Some cs \<Rightarrow> cs) @ [r])
                       detached\<rparr>)))"

text \<open>
  Modelled from the spec: the change summary of a commit (added, updated and removed
  refs) and \<open>commit()\<close>, which applies the edit script to the base tree and stops at the
  first structural error (\<open>StateTree.build\<close> is missing). A reparent moves a node and
  is in none of the three lists.
\<close>

record ChangeSummary =
  cs_added :: "ref list"
  cs_updated :: "ref list"
  cs_removed :: "ref list"

text \<open>
  Modelled from the spec: the empty change summary (\<open>StateTree.build\<close> is
  missing).
\<close>

definition no_changes :: ChangeSummary where
  "no_changes = \<lparr>cs_added = [], cs_updated = [], cs_removed = []\<rparr>"

text \<open>
  Modelled from the spec: one edit of the script applied to the tree, with its entry in
  the change summary (\<open>StateTree.build\<close> is missing).
\<close>

fun apply_edit ::
  "Registry \<Rightarrow> StateTree \<times> ChangeSummary \<Rightarrow> Edit \<Rightarrow> StructuralError + (StateTree \<times> ChangeSummary)" where
  "apply_edit reg (t, s) (ApplyTransform parentRef kind params newRef) =
     (case applyTransform reg t parentRef kind params newRef of
        Inl e \<Rightarrow> Inl e
      | Inr t' \<Rightarrow> Inr (t', s\<lparr>cs_added := cs_added s @ [newRef]\<rparr>))"
| "apply_edit reg (t, s) (UpdateParams r p) =
     (case updateParams t r p of
        Inl e \<Rightarrow> Inl e
      | Inr t' \<Rightarrow> Inr (t', s\<lparr>cs_updated := cs_updated s @ [r]\<rparr>))"
| "apply_edit reg (t, s) (Delete r) =
     (if r = rootRef t \<or> node t r = None then Inr (t, s)
      else Inr (delete t r, s\<lparr>cs_removed := cs_removed s @ [r]\<rparr>))"
| "apply_edit reg (t, s) (Reparent r p) =
     (case reparent t r p of
        Inl e \<Rightarrow> Inl e
      | Inr t' \<Rightarrow> Inr (t', s))"

text \<open>
  Modelled from the spec: the edits in order, stopping at the first structural error
  (\<open>StateTree.build\<close> is missing).
\<close>

fun apply_edits ::
  "Registry \<Rightarrow> StateTree \<times> ChangeSummary \<Rightarrow> Edit list \<Rightarrow> StructuralError + (StateTree \<times> ChangeSummary)" where
  "apply_edits reg ts [] = Inr ts"
| "apply_edits reg ts (e # es) =
     (case apply_edit reg ts e of
        Inl err \<Rightarrow> Inl err
      | Inr ts' \<Rightarrow> apply_edits reg ts' es)"

text \<open>
  Modelled from the spec: \<open>commit()\<close> (\<open>StateTree.build\<close> is
  missing): the new tree and the change summary, or the error.
\<close>

definition commit :: "Registry \<Rightarrow> StateTree \<Rightarrow> Edit list \<Rightarrow> StructuralError + (StateTree \<times> ChangeSummary)" where
  "commit reg base edits = apply_edits reg (base, no_changes) edits"

section \<open>Serialized tree format\<close>

text \<open>
  Modelled from the spec: the serialized tree format of section 6 (\<open>StateTree.toJSON\<close>
  and \<open>StateTree.fromJSON\<close> are missing): the root ref and an ordered list of node
  records \<open>{ref, parentRef, kind, params, flags}\<close>. Versions are not written and start
  again at 0 on load.
\<close>

record NodeRecord =
  r_ref :: ref
  r_parentRef :: "ref option"
  r_kind :: string
  r_params :: Params
  r_flags :: Flags

text \<open>
  Modelled from the spec: the serialized tree, the root ref and the node records
  (\<open>StateTree.toJSON\<close> is missing).
\<close>

record SerializedTree =
  s_rootRef :: ref
  s_records :: "NodeRecord list"

text \<open>
  Modelled from the spec: the record of the node at one reference id
  (\<open>StateTree.toJSON\<close> is missing); no record where the tree has no node.
\<close>

definition node_record :: "StateTree \<Rightarrow> ref \<Rightarrow> NodeRecord list" where
  "node_record t r =
     (case node t r of
        None \<Rightarrow> []
      | Some n \<Rightarrow> [\<lparr>r_ref = r, r_parentRef = parent t r, r_kind = n_kind n,
                    r_params = n_params n, r_flags = n_flags n\<rparr>])"

text \<open>
  Modelled from the spec: \<open>toSerializable()\<close> (\<open>StateTree.toJSON\<close> is missing). The
  list of records is ordered: the nodes are written in the pre-order traversal from the
  root, \<open>subtreeRefs(root)\<close>, so that the records of the children of a node follow each
  other in the order of its child list, which section 3 calls meaningful.
\<close>

definition toSerializable :: "StateTree \<Rightarrow> SerializedTree" where
  "toSerializable t =
     \<lparr>s_rootRef = rootRef t,
      s_records = concat (map (node_record t) (subtreeRefs t (rootRef t)))\<rparr>"

text \<open>
  Modelled from the spec: \<open>fromSerializable()\<close>
  (\<open>StateTree.fromJSON\<close> is missing): nodes at version 0, each child list
  rebuilt from the parent refs of the records, in the order of the records.
\<close>

definition fromSerializable :: "SerializedTree \<Rightarrow> StateTree" where
  "fromSerializable s =
     \<lparr>rootRef = s_rootRef s,
      nodes = map (\<lambda>rc. (r_ref rc, \<lparr>n_ref = r_ref rc, n_kind = r_kind rc, n_params = r_params rc,
                                   n_version = 0, n_flags = r_flags rc\<rparr>)) (s_records s),
      children = map (\<lambda>rc. (r_ref rc,
                     map r_ref (filter (\<lambda>c. r_parentRef c = Some (r_ref rc)) (s_records s))))
                   (s_records s)\<rparr>"

section \<open>The state and its reconciliation\<close>

text \<open>
  Modelled from the spec: the state object cell of section 3 (\<open>State\<close> of \<open>mol-state\<close>
  is missing): status, computed object, error detail and the tree version it was
  computed against; the cell's reference id is its key in the cell mapping.
\<close>

datatype Status = Pending | Processing | Ok | Error

text \<open>
  Modelled from the spec: the attributes of a cell (\<open>StateObjectCell\<close> of
  \<open>mol-state\<close> is missing).
\<close>

record Cell =
  status :: Status
  obj :: "StateObject option"
  errorDetail :: "TransformError option"
  sourceVersion :: nat

text \<open>
  Modelled from the spec: the events of section 6 (\<open>State\<close> is missing), each with the
  affected ref and its context.
\<close>

datatype Event =
    CellCreated ref Cell
  | CellRemoved ref "ref option"
  | CellUpdated ref Cell
  | CellStatusChanged ref Cell

text \<open>
  Modelled from the spec: the state (\<open>State\<close> is missing): the current tree, one cell
  per node, and the events published so far.
\<close>

record State =
  tree :: StateTree
  cells :: "ref \<rightharpoonup> Cell"
  events :: "Event list"

text \<open>
  Modelled from the spec: a cell that is \<open>pending\<close>, without object and
  error (\<open>State\<close> is missing).
\<close>

definition pending_cell :: "nat \<Rightarrow> Cell" where
  "pending_cell v = \<lparr>status = Pending, obj = None, errorDetail = None, sourceVersion = v\<rparr>"

text \<open>
  Modelled from the spec: a cell that is \<open>ok\<close> with its computed object
  (\<open>State\<close> is missing).
\<close>

definition ok_cell :: "nat \<Rightarrow> StateObject \<Rightarrow> Cell" where
  "ok_cell v b = \<lparr>status = Ok, obj = Some b, errorDetail = None, sourceVersion = v\<rparr>"

text \<open>
  Modelled from the spec: a cell in \<open>error\<close> with the error detail
  (\<open>State\<close> is missing).
\<close>

definition error_cell :: "nat \<Rightarrow> TransformError \<Rightarrow> Cell" where
  "error_cell v e = \<lparr>status = Error, obj = None, errorDetail = Some e, sourceVersion = v\<rparr>"

text \<open>
  Modelled from the spec: the object of a cell that is \<open>ok\<close> (\<open>State\<close> is missing); a
  cell has a computed object iff its status is \<open>ok\<close>.
\<close>

definition ok_object :: "Cell option \<Rightarrow> StateObject option" where
  "ok_object c = (case c of None \<Rightarrow> None | Some c' \<Rightarrow> if status c' = Ok then obj c' else None)"

text \<open>
  Modelled from the spec: \<open>State.create(rootObject)\<close> (\<open>State\<close> is missing): a tree with
  only the root, whose cell is \<open>ok\<close> with the given object.
\<close>

definition create :: "ref \<Rightarrow> StateObject \<Rightarrow> State" where
  "create rootId rootObject =
     \<lparr>tree = \<lparr>rootRef = rootId,
              nodes = [(rootId, \<lparr>n_ref = rootId, n_kind = ''root'', n_params = NoParams,
                               n_version = 0, n_flags = no_flags\<rparr>)],
              children = [(rootId, [])]\<rparr>,
      cells = [rootId \<mapsto> ok_cell 0 rootObject],
      events = []\<rparr>"

text \<open>
  Modelled from the spec: step 4 of section 4.3 for a new node, \<open>apply(parentObject,
  params)\<close> (\<open>State\<close> is missing); a failure is captured in the cell as status \<open>error\<close>.
\<close>

definition run_apply :: "Registry \<Rightarrow> TreeNode \<Rightarrow> StateObject \<Rightarrow> Cell" where
  "run_apply reg n a =
     (case lookup reg (n_kind n) of
        None \<Rightarrow> error_cell (n_version n) (JsError ''unknown transform kind'')
      | Some d \<Rightarrow>
          (case t_apply d a (n_params n) of
             Inl e \<Rightarrow> error_cell (n_version n) e
           | Inr b \<Rightarrow> ok_cell (n_version n) b))"

text \<open>
  Modelled from the spec: step 4 of section 4.3 for a node that had an object,
  \<open>update(previousObject, previousParams, newParams)\<close> with the parent object as the
  source's \<open>update\<close> takes it (\<open>State\<close> is missing). The result is the new cell, whether
  its object changed, and the events.
\<close>

definition run_update ::
  "Registry \<Rightarrow> ref \<Rightarrow> ref \<Rightarrow> TreeNode \<Rightarrow> Params \<Rightarrow> StateObject \<Rightarrow> Cell \<Rightarrow> StateObject
     \<Rightarrow> Cell \<times> bool \<times> Event list" where
  "run_update reg r p n oldParams a c b =
     (case lookup reg (n_kind n) of
        None \<Rightarrow>
          (let c' = error_cell (n_version n) (JsError ''unknown transform kind'')
           in (c', True, [CellStatusChanged r c']))
      | Some d \<Rightarrow>
          (case t_update d a b oldParams (n_params n) of
             Inl e \<Rightarrow> (let c' = error_cell (n_version n) e in (c', True, [CellStatusChanged r c']))
           | Inr res \<Rightarrow>
               (case fst res of
                  Unchanged \<Rightarrow> (c\<lparr>sourceVersion := n_version n\<rparr>, False, [])
                | Updated \<Rightarrow>
                    (let c' = c\<lparr>obj := Some (snd res), sourceVersion := n_version n\<rparr>
                     in (c', True, [CellUpdated r c']))
                | Recreate \<Rightarrow>
                    (let c' = run_apply reg n a
                     in (c', True, [CellRemoved r (Some p), CellCreated r c'])))))"

text \<open>
  Modelled from the spec: what reconciliation does with one node whose parent cell is
  \<open>ok\<close> with object \<open>a\<close> (\<open>State\<close> is missing). A node without a cell is applied. A cell
  with an object is updated when it is stale (its parameters were updated, or its
  parent's object changed, or it has another parent than in the old tree) and kept
  otherwise. A cell in \<open>error\<close> is tried again only
  when its own parameters were updated (section 7); a cell that was never attempted is
  applied.
\<close>

definition attempt ::
  "Registry \<Rightarrow> ref \<Rightarrow> ref \<Rightarrow> TreeNode \<Rightarrow> Params \<Rightarrow> StateObject \<Rightarrow> bool \<Rightarrow> bool \<Rightarrow> Cell option
     \<Rightarrow> Cell \<times> bool \<times> Event list" where
  "attempt reg r p n oldParams a ownUpdated parentChanged old =
     (case old of
        None \<Rightarrow> (let c' = run_apply reg n a in (c', True, [CellCreated r c']))
      | Some c \<Rightarrow>
          (case ok_object (Some c) of
             Some b \<Rightarrow>
               if ownUpdated \<or> parentChanged then run_update reg r p n oldParams a c b
               else (c, False, [])
           | None \<Rightarrow>
               if status c = Error \<and> \<not> ownUpdated then (c, False, [])
               else (let c' = run_apply reg n a in (c', True, [CellStatusChanged r c']))))"

text \<open>
  Modelled from the spec: step 5 of section 4.3, the short-circuit rule (\<open>State\<close> is
  missing): under a parent that is not \<open>ok\<close> the cell is forced to \<open>pending\<close> and the
  transform is not attempted.
\<close>

definition force_pending :: "ref \<Rightarrow> TreeNode \<Rightarrow> Cell option \<Rightarrow> Cell \<times> Event list" where
  "force_pending r n old =
     (case old of
        None \<Rightarrow> (pending_cell (n_version n), [CellCreated r (pending_cell (n_version n))])
      | Some c \<Rightarrow>
          if status c = Pending \<and> obj c = None then (c, [])
          else (pending_cell (n_version n), [CellStatusChanged r (pending_cell (n_version n))]))"

text \<open>
  Modelled from the spec: the running data of one reconciliation (\<open>State\<close> is missing):
  the cells, the refs whose object changed so far, and the events in order.
\<close>

record Recon =
  rc_cells :: "ref \<rightharpoonup> Cell"
  rc_changed :: "ref set"
  rc_events :: "Event list"

text \<open>
  Modelled from the spec: the previous parameters of a node, those it has in the old
  tree (\<open>State\<close> is missing).
\<close>

definition old_params :: "StateTree \<Rightarrow> ref \<Rightarrow> TreeNode \<Rightarrow> Params" where
  "old_params oldTree r n = (case node oldTree r of None \<Rightarrow> n_params n | Some n' \<Rightarrow> n_params n')"

text \<open>
  Modelled from the spec: steps 2 to 5 of section 4.3 for one ref of the new tree
  (\<open>State\<close> is missing), taken after its parent. The root has no parent and keeps its
  cell.
\<close>

definition step :: "Registry \<Rightarrow> StateTree \<Rightarrow> StateTree \<Rightarrow> ref set \<Rightarrow> Recon \<Rightarrow> ref \<Rightarrow> Recon" where
  "step reg oldTree newTree upd rc r =
     (case node newTree r of
        None \<Rightarrow> rc
      | Some n \<Rightarrow>
          (case parent newTree r of
             None \<Rightarrow> rc
           | Some p \<Rightarrow>
               (case ok_object (rc_cells rc p) of
                  Some a \<Rightarrow>
                    (let res = attempt reg r p n (old_params oldTree r n) a (r \<in> upd)
                                 (p \<in> rc_changed rc \<or> parent oldTree r \<noteq> Some p)
                                 (rc_cells rc r)
                     in rc\<lparr>rc_cells := (rc_cells rc)(r \<mapsto> fst res),
                           rc_changed := (if fst (snd res) then insert r (rc_changed rc)
                                          else rc_changed rc),
                           rc_events := rc_events rc @ snd (snd res)\<rparr>)
                | None \<Rightarrow>
                    (let res = force_pending r n (rc_cells rc r)
                     in rc\<lparr>rc_cells := (rc_cells rc)(r \<mapsto> fst res),
                           rc_events := rc_events rc @ snd res\<rparr>))))"

text \<open>
  Modelled from the spec: step 1 of section 4.3 (\<open>State\<close> is missing): the cells of the
  removed refs and of their descendants in the old tree are dropped, with one removal
  event per removed ref.
\<close>

definition drop_removed :: "StateTree \<Rightarrow> ref list \<Rightarrow> (ref \<rightharpoonup> Cell) \<Rightarrow> (ref \<rightharpoonup> Cell)" where
  "drop_removed oldTree rs cs =
     (\<lambda>r. if r \<in> set (concat (map (subtreeRefs oldTree) rs)) then None else cs r)"

text \<open>
  Modelled from the spec: reconciliation of section 4.3, given the state, the new tree
  and the change summary (\<open>State.update\<close> is missing). The refs of the new tree are
  taken in pre-order from the root, ancestors before descendants.
\<close>

definition reconcile :: "Registry \<Rightarrow> State \<Rightarrow> StateTree \<Rightarrow> ChangeSummary \<Rightarrow> State" where
  "reconcile reg st newTree summary =
     (let rc0 = \<lparr>rc_cells = drop_removed (tree st) (cs_removed summary) (cells st),
                 rc_changed = {},
                 rc_events = map (\<lambda>r. CellRemoved r (parent (tree st) r)) (cs_removed summary)\<rparr>;
          rc = foldl (step reg (tree st) newTree (set (cs_updated summary))) rc0
                 (subtreeRefs newTree (rootRef newTree))
      in \<lparr>tree = newTree, cells = rc_cells rc, events = events st @ rc_events rc\<rparr>)"

text \<open>
  Modelled from the spec: one transaction of section 5 (\<open>State\<close> is missing): the edits
  are committed against the current tree and the result is reconciled; on a structural
  error the transaction is rejected, the error is returned and the state stays as it
  is.
\<close>

definition transact :: "Registry \<Rightarrow> State \<Rightarrow> Edit list \<Rightarrow> State \<times> StructuralError option" where
  "transact reg st edits =
     (case commit reg (tree st) edits of
        Inl e \<Rightarrow> (st, Some e)
      | Inr ts \<Rightarrow> (reconcile reg st (fst ts) (snd ts), None))"

section \<open>Example inputs\<close>

text \<open>Two trajectories \<open>a\<close> and \<open>b\<close>, and a trajectory \<open>old\<close> that the hierarchy no longer has.\<close>

definition tA :: TrajectoryRef where
  "tA = \<lparr>t_cell_ref = ''a'', models = []\<rparr>"

definition tB :: TrajectoryRef where
  "tB = \<lparr>t_cell_ref = ''b'', models = []\<rparr>"

definition tOld :: TrajectoryRef where
  "tOld = \<lparr>t_cell_ref = ''old'', models = []\<rparr>"

definition hAB :: StructureHierarchy where
  "hAB = \<lparr>trajectories = [tA, tB], all_models = [], all_structures = [],
          refs = [''a'' \<mapsto> TrajectoryH tA, ''b'' \<mapsto> TrajectoryH tB]\<rparr>"

text \<open>A manager that selected \<open>old\<close> and has \<open>b\<close> pending, and an update to \<open>hAB\<close>.\<close>

definition mPending :: Manager where
  "mPending = initial_manager\<lparr>sel_trajectories := [TrajectoryH tOld], nextSelection := {''b''}\<rparr>"

definition uAB :: HierarchyUpdate where
  "uAB = \<lparr>u_hierarchy = hAB, added = [TrajectoryH tA, TrajectoryH tB], updated = [],
          removed = [TrajectoryH tOld]\<rparr>"

text \<open>
  A manager on \<open>hAB\<close> that selected \<open>a\<close> and has \<open>b\<close> pending; the result of
  \<open>buildStructureHierarchy\<close> when nothing was added, updated or removed; and a later
  result in which only \<open>a\<close> was updated.
\<close>

definition mStale :: Manager where
  "mStale = initial_manager\<lparr>hierarchy := hAB, sel_trajectories := [TrajectoryH tA],
     nextSelection := {''b''}\<rparr>"

definition uNone :: HierarchyUpdate where
  "uNone = \<lparr>u_hierarchy = hAB, added = [], updated = [], removed = []\<rparr>"

definition uTouched :: HierarchyUpdate where
  "uTouched = \<lparr>u_hierarchy = hAB, added = [], updated = [TrajectoryH tA], removed = []\<rparr>"

text \<open>A hierarchy with one trajectory, one model and one structure, all three selected.\<close>

definition s1 :: StructureRef where
  "s1 = \<lparr>s_cell_ref = ''s1'', components = []\<rparr>"

definition m1 :: ModelRef where
  "m1 = \<lparr>m_cell_ref = ''m1'', structures = [s1]\<rparr>"

definition t1 :: TrajectoryRef where
  "t1 = \<lparr>t_cell_ref = ''t1'', models = [m1]\<rparr>"

definition h1 :: StructureHierarchy where
  "h1 = \<lparr>trajectories = [t1], all_models = [m1], all_structures = [s1],
         refs = [''t1'' \<mapsto> TrajectoryH t1, ''m1'' \<mapsto> ModelH m1, ''s1'' \<mapsto> StructureH s1]\<rparr>"

definition mSelected :: Manager where
  "mSelected = initial_manager\<lparr>hierarchy := h1, sel_trajectories := [TrajectoryH t1],
     sel_models := [ModelH m1], sel_structures := [StructureH s1]\<rparr>"

text \<open>Two structures whose components share the key \<open>x\<close>; two components have no usable key.\<close>

definition cA :: StructureComponentRef where
  "cA = \<lparr>c_cell_ref = ''cA'', key = Some ''x''\<rparr>"

definition cB :: StructureComponentRef where
  "cB = \<lparr>c_cell_ref = ''cB'', key = None\<rparr>"

definition cC :: StructureComponentRef where
  "cC = \<lparr>c_cell_ref = ''cC'', key = Some ''y''\<rparr>"

definition cD :: StructureComponentRef where
  "cD = \<lparr>c_cell_ref = ''cD'', key = Some ''x''\<rparr>"

definition cE :: StructureComponentRef where
  "cE = \<lparr>c_cell_ref = ''cE'', key = Some []\<rparr>"

definition sX :: StructureRef where
  "sX = \<lparr>s_cell_ref = ''sX'', components = [cA, cB, cC]\<rparr>"

definition sY :: StructureRef where
  "sY = \<lparr>s_cell_ref = ''sY'', components = [cD, cE]\<rparr>"

text \<open>
  The scenario of the specification: from the root \<open>R\<close>, a square of side 10 under the
  reference id \<open>sq\<close> and its area under a generated reference id; then the side is set
  to 15. The identifiers of the two transform kinds are those the registry knows the
  transforms by.
\<close>

definition root_object :: StateObject where
  "root_object = Root \<lparr>label = Text ''Root''\<rparr>"

definition scenario_apply :: "string \<Rightarrow> string \<Rightarrow> ref \<Rightarrow> Edit list" where
  "scenario_apply squareKind areaKind areaRef =
     [ApplyTransform ''R'' squareKind (SquareParams \<lparr>sq_a = 10\<rparr>) ''sq'',
      ApplyTransform ''sq'' areaKind NoParams areaRef]"

definition scenario_update :: "Edit list" where
  "scenario_update = [UpdateParams ''sq'' (SquareParams \<lparr>sq_a = 15\<rparr>)]"

definition square_cell :: "real \<Rightarrow> nat \<Rightarrow> Cell" where
  "square_cell x v = ok_cell v (Square \<lparr>label = SquareLabel x\<rparr> \<lparr>sq_a = x\<rparr>)"

definition area_cell :: "real \<Rightarrow> Cell" where
  "area_cell x = ok_cell 0 (Area \<lparr>label = Text ''Area''\<rparr> \<lparr>volume = x\<rparr>)"

text \<open>The tree of the scenario, with side \<open>x\<close> and version \<open>v\<close> at the square.\<close>

definition scenario_tree :: "string \<Rightarrow> string \<Rightarrow> ref \<Rightarrow> real \<Rightarrow> nat \<Rightarrow> StateTree" where
  "scenario_tree squareKind areaKind areaRef x v =
     \<lparr>rootRef = ''R'',
      nodes = [(''R'', \<lparr>n_ref = ''R'', n_kind = ''root'', n_params = NoParams,
                        n_version = 0, n_flags = no_flags\<rparr>),
               (''sq'', \<lparr>n_ref = ''sq'', n_kind = squareKind, n_params = SquareParams \<lparr>sq_a = x\<rparr>,
                         n_version = v, n_flags = no_flags\<rparr>),
               (areaRef, \<lparr>n_ref = areaRef, n_kind = areaKind, n_params = NoParams,
                          n_version = 0, n_flags = no_flags\<rparr>)],
      children = [(''R'', [''sq'']), (''sq'', [areaRef]), (areaRef, [])]\<rparr>"

definition example_tree :: StateTree where
  "example_tree = scenario_tree ''create-square'' ''calc-area'' ''ar'' 15 1"

section \<open>Specifications of the tree operations\<close>

text \<open>
  Modelled from the spec: a transaction that only calls \<open>updateParams\<close>, as the list of
  its refs and parameters (\<open>StateTree.build\<close> is missing).
\<close>

definition update_edits :: "(ref \<times> Params) list \<Rightarrow> Edit list" where
  "update_edits ups = map (\<lambda>rp. UpdateParams (fst rp) (snd rp)) ups"

text \<open>
  Modelled from the spec: structural equality of two trees, as the round-trip law lists it:
  the same root, the same set of reference ids, the same parent edges, at every reference
  id the same ordered child list (section 3: the order of the children is meaningful),
  and at every reference id the same kind, parameters and decoration flags. Versions are
  not compared.
\<close>

definition structurally_equal :: "StateTree \<Rightarrow> StateTree \<Rightarrow> bool" where
  "structurally_equal t t' =
     (rootRef t' = rootRef t
      \<and> set (map fst (nodes t')) = set (map fst (nodes t))
      \<and> (\<forall>r. parent t' r = parent t r)
      \<and> (\<forall>r. children_of t' r = children_of t r)
      \<and> (\<forall>r. map_option n_kind (node t' r) = map_option n_kind (node t r))
      \<and> (\<forall>r. map_option n_params (node t' r) = map_option n_params (node t r))
      \<and> (\<forall>r. map_option n_flags (node t' r) = map_option n_flags (node t r)))"

text \<open>
  A tree after a reparent: the square \<open>a\<close>, created first under the root, was moved to the
  end of the root's child list, behind \<open>x\<close> and \<open>b\<close>; the node mapping still has it in
  the second place. The node \<open>x\<close> was updated three times and \<open>b\<close> is hidden.
\<close>

definition moved_tree :: StateTree where
  "moved_tree =
     \<lparr>rootRef = ''R'',
      nodes = [(''R'', \<lparr>n_ref = ''R'', n_kind = ''root'', n_params = NoParams,
                        n_version = 0, n_flags = no_flags\<rparr>),
               (''a'', \<lparr>n_ref = ''a'', n_kind = ''create-square'',
                        n_params = SquareParams \<lparr>sq_a = 10\<rparr>,
                        n_version = 0, n_flags = no_flags\<rparr>),
               (''x'', \<lparr>n_ref = ''x'', n_kind = ''create-square'',
                        n_params = SquareParams \<lparr>sq_a = 15\<rparr>,
                        n_version = 3, n_flags = no_flags\<rparr>),
               (''b'', \<lparr>n_ref = ''b'', n_kind = ''create-circle'',
                        n_params = CircleParams \<lparr>circ_r = 1\<rparr>,
                        n_version = 0, n_flags = no_flags\<lparr>hidden := True\<rparr>\<rparr>),
               (''ar'', \<lparr>n_ref = ''ar'', n_kind = ''calc-area'', n_params = NoParams,
                         n_version = 0, n_flags = no_flags\<rparr>)],
      children = [(''R'', [''x'', ''b'', ''a'']), (''a'', [''ar'']), (''x'', []),
                  (''b'', []), (''ar'', [])]\<rparr>"

section \<open>Specifications of the reconciliation\<close>

text \<open>
  Modelled from the spec: the order of step 3 in section 4.3, ancestors before
  descendants: each ref of the list has its parent in \<open>S\<close> or earlier in the list.
\<close>

fun parents_first :: "StateTree \<Rightarrow> ref set \<Rightarrow> ref list \<Rightarrow> bool" where
  "parents_first t S [] = True"
| "parents_first t S (x # xs) = ((\<exists>p\<in>S. parent t x = Some p) \<and> parents_first t (insert x S) xs)"


text \<open>
  A tree in which \<open>calc-area\<close> stands directly under the root, with a second
  \<open>calc-area\<close> under it, beside the square of side 10 and its area: \<open>CaclArea\<close> throws
  on the root object. The state is the first reconciliation of this tree.
\<close>

definition failing_tree :: StateTree where
  "failing_tree =
     \<lparr>rootRef = ''R'',
      nodes = [(''R'', \<lparr>n_ref = ''R'', n_kind = ''root'', n_params = NoParams,
                        n_version = 0, n_flags = no_flags\<rparr>),
               (''a1'', \<lparr>n_ref = ''a1'', n_kind = ''calc-area'', n_params = NoParams,
                         n_version = 0, n_flags = no_flags\<rparr>),
               (''a2'', \<lparr>n_ref = ''a2'', n_kind = ''calc-area'', n_params = NoParams,
                         n_version = 0, n_flags = no_flags\<rparr>),
               (''sq'', \<lparr>n_ref = ''sq'', n_kind = ''create-square'',
                         n_params = SquareParams \<lparr>sq_a = 10\<rparr>,
                         n_version = 0, n_flags = no_flags\<rparr>),
               (''ar'', \<lparr>n_ref = ''ar'', n_kind = ''calc-area'', n_params = NoParams,
                         n_version = 0, n_flags = no_flags\<rparr>)],
      children = [(''R'', [''a1'', ''sq'']), (''a1'', [''a2'']), (''a2'', []),
                  (''sq'', [''ar'']), (''ar'', [])]\<rparr>"

definition failing_state :: State where
  "failing_state =
     reconcile test_registry (create ''R'' root_object) failing_tree
       \<lparr>cs_added = [''a1'', ''a2'', ''sq'', ''ar''], cs_updated = [], cs_removed = []\<rparr>"

section \<open>Properties of the hierarchy manager\<close>

lemma first_or_empty_hd: "xs \<noteq> [] \<Longrightarrow> first_or_empty xs = [hd xs]"
  by (cases xs) simp_all

lemma first_or_empty_Nil_iff: "first_or_empty xs = [] \<longleftrightarrow> xs = []"
  by (cases xs) simp_all

lemma lookup_current_none:
  "\<forall>c\<in>set cs. m (cell_ref c) = None \<Longrightarrow> lookup_current m cs = []"
  by (induction cs) simp_all

text \<open>
  C4 (as amended). When the candidate pool \<open>all\<close> is not empty, the resynchronized
  selection is never empty; and when no previously selected ref is found in the new
  hierarchy and no candidate is in the pending set (in particular when the pending set
  is empty), it is exactly the list of the first candidate.
\<close>

theorem syncCurrent_fallback:
  assumes "all \<noteq> []"
  shows "syncCurrent next h current all \<noteq> [] \<and>
    ((\<forall>c\<in>set current. refs h (cell_ref c) = None) \<and> (\<forall>r\<in>set all. cell_ref r \<notin> next)
       \<longrightarrow> syncCurrent next h current all = [hd all])"
proof
  show "syncCurrent next h current all \<noteq> []"
    using assms by (simp add: syncCurrent_def Let_def first_or_empty_Nil_iff)
next
  show "(\<forall>c\<in>set current. refs h (cell_ref c) = None) \<and> (\<forall>r\<in>set all. cell_ref r \<notin> next)
       \<longrightarrow> syncCurrent next h current all = [hd all]"
  proof
    assume a: "(\<forall>c\<in>set current. refs h (cell_ref c) = None) \<and> (\<forall>r\<in>set all. cell_ref r \<notin> next)"
    then have "lookup_current (refs h) current = []"
      by (simp add: lookup_current_none)
    moreover from a have "filter (\<lambda>r. cell_ref r \<in> next) all = []"
      by (simp add: filter_empty_conv)
    ultimately show "syncCurrent next h current all = [hd all]"
      using assms by (simp add: syncCurrent_def Let_def first_or_empty_hd)
  qed
qed

theorem syncCurrent_fallback_witness:
  "map TrajectoryH (trajectories hAB) \<noteq> [] \<and>
   refs hAB (cell_ref (TrajectoryH tOld)) = None \<and>
   syncCurrent {} hAB [TrajectoryH tOld] (map TrajectoryH (trajectories hAB)) = [TrajectoryH tA]"
proof -
  have ne: "map TrajectoryH (trajectories hAB) \<noteq> []"
    by (simp add: hAB_def)
  have gone: "refs hAB (cell_ref (TrajectoryH tOld)) = None"
    by (simp add: hAB_def tOld_def)
  have "syncCurrent {} hAB [TrajectoryH tOld] (map TrajectoryH (trajectories hAB))
          = [hd (map TrajectoryH (trajectories hAB))]"
    using syncCurrent_fallback [OF ne, of "{}" hAB "[TrajectoryH tOld]"] gone by simp
  then show ?thesis
    using ne gone by (simp add: hAB_def)
qed

text \<open>
  C4 as stated fails: with \<open>b\<close> pending, a non-empty pool \<open>[a, b]\<close> and a previous
  selection \<open>[old]\<close> that the new hierarchy no longer has, the result is \<open>[b]\<close>, not the
  first candidate \<open>[a]\<close>.
\<close>

theorem syncCurrent_pending_counterexample:
  "map TrajectoryH (trajectories hAB) \<noteq> [] \<and>
   refs hAB (cell_ref (TrajectoryH tOld)) = None \<and>
   syncCurrent {''b''} hAB [TrajectoryH tOld] (map TrajectoryH (trajectories hAB)) = [TrajectoryH tB] \<and>
   [TrajectoryH tB] \<noteq> [hd (map TrajectoryH (trajectories hAB))]"
  by (simp add: syncCurrent_def hAB_def tA_def tB_def tOld_def)

lemma sync_nextSelection:
  "added u \<noteq> [] \<or> updated u \<noteq> [] \<or> removed u \<noteq> [] \<Longrightarrow> nextSelection (sync m u) = {}"
  by (auto simp add: sync_def Let_def)

lemma sync_unchanged:
  "added u = [] \<Longrightarrow> updated u = [] \<Longrightarrow> removed u = [] \<Longrightarrow> sync m u = m"
  by (simp add: sync_def)

text \<open>
  C5 (as amended). In a resynchronization whose hierarchy update added, updated or
  removed something and that finds the pending set non-empty, each new selection list is
  made of the candidates whose refs are pending, or of the first candidate when none is,
  whatever the previous selection was; the pending set is empty afterwards, so the next
  call of \<open>sync\<close> is not affected by it: it leaves the selection as it is when its
  update is empty and follows the carry-forward rule otherwise.
\<close>

theorem sync_pending_override:
  assumes pend: "nextSelection m \<noteq> {}"
      and ch: "added u \<noteq> [] \<or> updated u \<noteq> [] \<or> removed u \<noteq> []"
  shows "sel_trajectories (sync m u) =
           (case filter (\<lambda>r. cell_ref r \<in> nextSelection m) (map TrajectoryH (trajectories (u_hierarchy u))) of
              [] \<Rightarrow> first_or_empty (map TrajectoryH (trajectories (u_hierarchy u)))
            | p # ps \<Rightarrow> p # ps)
       \<and> sel_models (sync m u) =
           (case filter (\<lambda>r. cell_ref r \<in> nextSelection m) (map ModelH (all_models (u_hierarchy u))) of
              [] \<Rightarrow> first_or_empty (map ModelH (all_models (u_hierarchy u)))
            | p # ps \<Rightarrow> p # ps)
       \<and> sel_structures (sync m u) =
           (case filter (\<lambda>r. cell_ref r \<in> nextSelection m) (map StructureH (all_structures (u_hierarchy u))) of
              [] \<Rightarrow> first_or_empty (map StructureH (all_structures (u_hierarchy u)))
            | p # ps \<Rightarrow> p # ps)
       \<and> nextSelection (sync m u) = {}
       \<and> sel_trajectories (sync (sync m u) u') =
           (if added u' = [] \<and> updated u' = [] \<and> removed u' = [] then sel_trajectories (sync m u)
            else syncCurrent {} (u_hierarchy u') (sel_trajectories (sync m u))
                   (map TrajectoryH (trajectories (u_hierarchy u'))))
       \<and> sel_models (sync (sync m u) u') =
           (if added u' = [] \<and> updated u' = [] \<and> removed u' = [] then sel_models (sync m u)
            else syncCurrent {} (u_hierarchy u') (sel_models (sync m u))
                   (map ModelH (all_models (u_hierarchy u'))))
       \<and> sel_structures (sync (sync m u) u') =
           (if added u' = [] \<and> updated u' = [] \<and> removed u' = [] then sel_structures (sync m u)
            else syncCurrent {} (u_hierarchy u') (sel_structures (sync m u))
                   (map StructureH (all_structures (u_hierarchy u'))))"
proof -
  have n: "nextSelection (sync m u) = {}"
    using ch by (rule sync_nextSelection)
  have A: "\<not> (added u = [] \<and> updated u = [] \<and> removed u = [])"
    using ch by blast
  have 1: "sel_trajectories (sync m u) =
      syncCurrent (nextSelection m) (u_hierarchy u) (sel_trajectories m) (map TrajectoryH (trajectories (u_hierarchy u)))"
    and 2: "sel_models (sync m u) =
      syncCurrent (nextSelection m) (u_hierarchy u) (sel_models m) (map ModelH (all_models (u_hierarchy u)))"
    and 3: "sel_structures (sync m u) =
      syncCurrent (nextSelection m) (u_hierarchy u) (sel_structures m) (map StructureH (all_structures (u_hierarchy u)))"
    using A by (auto simp add: sync_def Let_def)
  have p: "\<And>cur all. syncCurrent (nextSelection m) (u_hierarchy u) cur all =
      (case filter (\<lambda>r. cell_ref r \<in> nextSelection m) all of [] \<Rightarrow> first_or_empty all | p # ps \<Rightarrow> p # ps)"
    using pend by (simp add: syncCurrent_def Let_def split: list.splits)
  have 4: "sel_trajectories (sync (sync m u) u') =
           (if added u' = [] \<and> updated u' = [] \<and> removed u' = [] then sel_trajectories (sync m u)
            else syncCurrent {} (u_hierarchy u') (sel_trajectories (sync m u))
                   (map TrajectoryH (trajectories (u_hierarchy u'))))"
    and 5: "sel_models (sync (sync m u) u') =
           (if added u' = [] \<and> updated u' = [] \<and> removed u' = [] then sel_models (sync m u)
            else syncCurrent {} (u_hierarchy u') (sel_models (sync m u))
                   (map ModelH (all_models (u_hierarchy u'))))"
    and 6: "sel_structures (sync (sync m u) u') =
           (if added u' = [] \<and> updated u' = [] \<and> removed u' = [] then sel_structures (sync m u)
            else syncCurrent {} (u_hierarchy u') (sel_structures (sync m u))
                   (map StructureH (all_structures (u_hierarchy u'))))"
    using n by (auto simp add: sync_def [of "sync m u" u'] Let_def)
  have o1: "sel_trajectories (sync m u) =
           (case filter (\<lambda>r. cell_ref r \<in> nextSelection m) (map TrajectoryH (trajectories (u_hierarchy u))) of
              [] \<Rightarrow> first_or_empty (map TrajectoryH (trajectories (u_hierarchy u)))
            | p # ps \<Rightarrow> p # ps)"
    and o2: "sel_models (sync m u) =
           (case filter (\<lambda>r. cell_ref r \<in> nextSelection m) (map ModelH (all_models (u_hierarchy u))) of
              [] \<Rightarrow> first_or_empty (map ModelH (all_models (u_hierarchy u)))
            | p # ps \<Rightarrow> p # ps)"
    and o3: "sel_structures (sync m u) =
           (case filter (\<lambda>r. cell_ref r \<in> nextSelection m) (map StructureH (all_structures (u_hierarchy u))) of
              [] \<Rightarrow> first_or_empty (map StructureH (all_structures (u_hierarchy u)))
            | p # ps \<Rightarrow> p # ps)"
    unfolding 1 2 3 p by (rule refl)+
  show ?thesis
    by (intro conjI o1 o2 o3 n 4 5 6)
qed

theorem sync_pending_override_witness:
  "nextSelection mPending \<noteq> {} \<and> added uAB \<noteq> [] \<and>
   sel_trajectories mPending = [TrajectoryH tOld] \<and>
   sel_trajectories (sync mPending uAB) = [TrajectoryH tB] \<and>
   nextSelection (sync mPending uAB) = {} \<and>
   sel_trajectories (sync (sync mPending uAB) uNone) = [TrajectoryH tB] \<and>
   sel_trajectories (sync (sync mPending uAB) uAB) = [TrajectoryH tB]"
proof -
  have pend: "nextSelection mPending \<noteq> {}"
    by (simp add: mPending_def)
  have ch: "added uAB \<noteq> [] \<or> updated uAB \<noteq> [] \<or> removed uAB \<noteq> []"
    by (simp add: uAB_def)
  have a: "sel_trajectories (sync mPending uAB) = [TrajectoryH tB]"
    using sync_pending_override [OF pend ch]
    by (simp add: mPending_def uAB_def hAB_def tA_def tB_def)
  have b: "nextSelection (sync mPending uAB) = {}"
    using sync_pending_override [OF pend ch] by simp
  have c: "sel_trajectories (sync (sync mPending uAB) uNone) = [TrajectoryH tB]"
    using sync_pending_override [OF pend ch, of uNone] a by (simp add: uNone_def)
  have d: "sel_trajectories (sync (sync mPending uAB) uAB) = [TrajectoryH tB]"
    using sync_pending_override [OF pend ch, of uAB] a
    by (simp add: syncCurrent_def uAB_def hAB_def tA_def tB_def)
  show ?thesis
    using pend a b c d by (simp add: uAB_def mPending_def)
qed

text \<open>
  C5 as stated fails when the update is empty: \<open>sync\<close> returns before it reads or clears
  the pending set. With \<open>a\<close> selected and \<open>b\<close> pending, the call leaves \<open>[a]\<close> selected,
  where the override gives \<open>[b]\<close>, and \<open>b\<close> stays pending; the next call, whose update
  only touched \<open>a\<close>, then selects \<open>[b]\<close>, where the carry-forward rule keeps \<open>[a]\<close>.
\<close>

theorem sync_pending_kept_counterexample:
  "nextSelection mStale \<noteq> {} \<and>
   syncCurrent (nextSelection mStale) (u_hierarchy uNone) (sel_trajectories mStale)
     (map TrajectoryH (trajectories (u_hierarchy uNone))) = [TrajectoryH tB] \<and>
   sel_trajectories (sync mStale uNone) = [TrajectoryH tA] \<and>
   [TrajectoryH tA] \<noteq> [TrajectoryH tB] \<and>
   nextSelection (sync mStale uNone) = {''b''} \<and>
   syncCurrent {} (u_hierarchy uTouched) (sel_trajectories (sync mStale uNone))
     (map TrajectoryH (trajectories (u_hierarchy uTouched))) = [TrajectoryH tA] \<and>
   sel_trajectories (sync (sync mStale uNone) uTouched) = [TrajectoryH tB]"
proof -
  have keep: "sync mStale uNone = mStale"
    by (simp add: sync_def uNone_def)
  have ne: "[TrajectoryH tA] \<noteq> [TrajectoryH tB]"
    by (simp add: tA_def tB_def)
  have 1: "nextSelection mStale \<noteq> {}"
    and 2: "sel_trajectories mStale = [TrajectoryH tA]"
    and 3: "nextSelection mStale = {''b''}"
    by (simp_all add: mStale_def)
  have 4: "syncCurrent (nextSelection mStale) (u_hierarchy uNone) (sel_trajectories mStale)
      (map TrajectoryH (trajectories (u_hierarchy uNone))) = [TrajectoryH tB]"
    by (simp add: syncCurrent_def mStale_def uNone_def hAB_def tA_def tB_def)
  have 5: "syncCurrent {} (u_hierarchy uTouched) (sel_trajectories mStale)
      (map TrajectoryH (trajectories (u_hierarchy uTouched))) = [TrajectoryH tA]"
    by (simp add: syncCurrent_def mStale_def uTouched_def hAB_def tA_def)
  have 6: "sel_trajectories (sync mStale uTouched) = [TrajectoryH tB]"
    by (simp add: sync_def Let_def syncCurrent_def mStale_def uTouched_def hAB_def tA_def tB_def)
  show ?thesis
    unfolding keep by (intro conjI 1 4 2 ne 3 5 6)
qed

lemma seletionSet_coherent:
  "currentSelectionSet m = None \<or> currentSelectionSet m = Some (selection_refs m)
   \<Longrightarrow> fst (seletionSet m) = selection_refs m"
  by (auto simp add: seletionSet_def)

lemma seletionSet_keeps: "hierarchy (snd (seletionSet m)) = hierarchy m"
  by (simp add: seletionSet_def split: option.splits)

text \<open>
  The cache \<open>_currentSelectionSet\<close> is undefined or holds the refs of the selection: so
  it is at construction and after \<open>sync\<close>, \<open>updateCurrent\<close> and the getter.
\<close>

lemma cache_initial: "currentSelectionSet initial_manager = None"
  by (simp add: initial_manager_def)

lemma cache_sync:
  "currentSelectionSet m = None \<or> currentSelectionSet m = Some (selection_refs m) \<Longrightarrow>
   currentSelectionSet (sync m u) = None
     \<or> currentSelectionSet (sync m u) = Some (selection_refs (sync m u))"
  by (auto simp add: sync_def Let_def)

lemma cache_updateCurrent: "currentSelectionSet (updateCurrent m rs act) = None"
  by (simp add: updateCurrent_def Let_def split_beta)

lemma cache_seletionSet:
  "currentSelectionSet m = None \<or> currentSelectionSet m = Some (selection_refs m) \<Longrightarrow>
   currentSelectionSet (snd (seletionSet m)) = Some (selection_refs (snd (seletionSet m)))"
  by (auto simp add: seletionSet_def selection_refs_def)

text \<open>
  C8. When the refs passed to \<open>updateCurrent(refs, 'remove')\<close> cover the whole current
  selection, the three selection lists come out empty, whatever the hierarchy holds: no
  first-candidate fallback is applied on this path. The example below has a hierarchy with
  one trajectory, one model and one structure.
\<close>

theorem updateCurrent_remove_all:
  assumes coh: "currentSelectionSet m = None \<or> currentSelectionSet m = Some (selection_refs m)"
      and cover: "selection_refs m \<subseteq> set (map cell_ref rs)"
  shows "sel_trajectories (updateCurrent m rs Remove) = []
       \<and> sel_models (updateCurrent m rs Remove) = []
       \<and> sel_structures (updateCurrent m rs Remove) = []"
proof -
  define S where "S = fst (seletionSet m) - set (map cell_ref rs)"
  have S: "S = {}"
    using seletionSet_coherent [OF coh] cover by (simp add: S_def)
  have "sel_trajectories (updateCurrent m rs Remove) = picked_trajectories S (hierarchy m)"
    and "sel_models (updateCurrent m rs Remove) = picked_models S (hierarchy m)"
    and "sel_structures (updateCurrent m rs Remove) = picked_structures S (hierarchy m)"
    by (simp_all add: updateCurrent_def Let_def split_beta S_def seletionSet_keeps)
  then show ?thesis
    by (simp add: S picked_trajectories_def picked_models_def picked_structures_def)
qed

theorem updateCurrent_remove_all_witness:
  "trajectories (hierarchy mSelected) \<noteq> [] \<and> all_models (hierarchy mSelected) \<noteq> [] \<and>
   all_structures (hierarchy mSelected) \<noteq> [] \<and>
   sel_trajectories mSelected \<noteq> [] \<and> sel_models mSelected \<noteq> [] \<and> sel_structures mSelected \<noteq> [] \<and>
   sel_trajectories (updateCurrent mSelected [TrajectoryH t1, ModelH m1, StructureH s1] Remove) = [] \<and>
   sel_models (updateCurrent mSelected [TrajectoryH t1, ModelH m1, StructureH s1] Remove) = [] \<and>
   sel_structures (updateCurrent mSelected [TrajectoryH t1, ModelH m1, StructureH s1] Remove) = []"
proof -
  have coh: "currentSelectionSet mSelected = None
      \<or> currentSelectionSet mSelected = Some (selection_refs mSelected)"
    by (simp add: mSelected_def initial_manager_def)
  have cover: "selection_refs mSelected \<subseteq> set (map cell_ref [TrajectoryH t1, ModelH m1, StructureH s1])"
    by (simp add: mSelected_def selection_refs_def)
  show ?thesis
    using updateCurrent_remove_all [OF coh cover]
    by (simp add: mSelected_def h1_def)
qed

lemma set_first_occurrences [simp]: "set (first_occurrences xs) = set xs"
  by (induction xs) auto

lemma distinct_first_occurrences [simp]: "distinct (first_occurrences xs)"
  by (induction xs) auto

lemma first_occurrences_snoc:
  "first_occurrences (xs @ [x]) =
     (if x \<in> set xs then first_occurrences xs else first_occurrences xs @ [x])"
  by (induction xs) auto

lemma truthy_keys_snoc:
  "truthy_keys (cs @ [c]) =
     (if falsy_key (key c) then truthy_keys cs else truthy_keys cs @ [the (key c)])"
  by (simp add: truthy_keys_def)

lemma key_in_truthy_keys:
  "c \<in> set cs \<Longrightarrow> key c = Some k \<Longrightarrow> k \<noteq> [] \<Longrightarrow> k \<in> set (truthy_keys cs)"
  by (force simp add: truthy_keys_def)

lemma truthy_keys_nonempty: "k \<in> set (truthy_keys cs) \<Longrightarrow> k \<noteq> []"
  by (auto simp add: truthy_keys_def elim: falsy_key.elims)

lemma group_inv_empty: "group_inv [] ([], Map.empty)"
  by (simp add: group_inv_def groups_by_key_def truthy_keys_def)

lemma group_inv_step:
  assumes "group_inv cs st"
  shows "group_inv (cs @ [c]) (add_component st c)"
proof (cases "falsy_key (key c)")
  case True
  then have "\<And>k. k \<in> set (truthy_keys cs) \<Longrightarrow> key c \<noteq> Some k"
    using truthy_keys_nonempty by (cases "key c") auto
  then have "groups_by_key (cs @ [c]) = groups_by_key cs"
    using True by (simp add: groups_by_key_def truthy_keys_snoc)
  then show ?thesis
    using assms True by (simp add: group_inv_def add_component_def truthy_keys_snoc split_beta)
next
  case False
  then obtain k where k: "key c = Some k" "k \<noteq> []"
    by (cases "key c") auto
  obtain groups idx where st: "st = (groups, idx)"
    by (cases st)
  let ?fo = "first_occurrences (truthy_keys cs)"
  from assms st have g: "groups = groups_by_key cs"
    and idx: "\<And>k i. idx k = Some i \<longleftrightarrow> (i < length ?fo \<and> ?fo ! i = k)"
    by (simp_all add: group_inv_def)
  have len: "length groups = length ?fo"
    by (simp add: g groups_by_key_def)
  show ?thesis
  proof (cases "idx k")
    case None
    then have notin: "k \<notin> set (truthy_keys cs)"
      using idx [of k] by (metis in_set_conv_nth option.distinct(1) set_first_occurrences)
    then have nokey: "filter (\<lambda>c. key c = Some k) cs = []"
      using key_in_truthy_keys k(2) by (auto simp add: filter_empty_conv)
    have fo': "first_occurrences (truthy_keys (cs @ [c])) = ?fo @ [k]"
      using False k notin by (simp add: truthy_keys_snoc first_occurrences_snoc)
    have "map (\<lambda>k'. filter (\<lambda>c. key c = Some k') (cs @ [c])) ?fo
          = map (\<lambda>k'. filter (\<lambda>c. key c = Some k') cs) ?fo"
      using notin k by auto
    then have gr: "groups_by_key (cs @ [c]) = groups @ [[c]]"
      unfolding groups_by_key_def fo' g using nokey k by simp
    have "\<And>k' i. (idx(k \<mapsto> length groups)) k' = Some i \<longleftrightarrow>
        (i < length (?fo @ [k]) \<and> (?fo @ [k]) ! i = k')"
    proof -
      fix k' i
      show "(idx(k \<mapsto> length groups)) k' = Some i \<longleftrightarrow>
        (i < length (?fo @ [k]) \<and> (?fo @ [k]) ! i = k')"
      proof (cases "k' = k")
        case True
        have "\<And>j. j < length ?fo \<Longrightarrow> ?fo ! j \<noteq> k"
          using notin by (metis nth_mem set_first_occurrences)
        then show ?thesis
          using True len by (auto simp add: nth_append)
      next
        case False
        then show ?thesis
          using idx [of k' i] len by (auto simp add: nth_append)
      qed
    qed
    moreover have "add_component st c = (groups @ [[c]], idx(k \<mapsto> length groups))"
      using None k by (simp add: add_component_def st)
    ultimately show ?thesis
      using gr by (simp add: group_inv_def fo')
  next
    case (Some i)
    then have i: "i < length ?fo" "?fo ! i = k"
      using idx by auto
    then have kin: "k \<in> set (truthy_keys cs)"
      by (metis nth_mem set_first_occurrences)
    have fo': "first_occurrences (truthy_keys (cs @ [c])) = ?fo"
      using False k kin by (simp add: truthy_keys_snoc first_occurrences_snoc)
    have "groups_by_key (cs @ [c]) = groups[i := groups ! i @ [c]]"
    proof (rule nth_equalityI)
      show "length (groups_by_key (cs @ [c])) = length (groups[i := groups ! i @ [c]])"
        by (simp add: groups_by_key_def fo' len)
    next
      fix j assume "j < length (groups_by_key (cs @ [c]))"
      then have j: "j < length ?fo"
        by (simp add: groups_by_key_def fo')
      show "groups_by_key (cs @ [c]) ! j = groups[i := groups ! i @ [c]] ! j"
      proof (cases "j = i")
        case True
        then show ?thesis
          using i j k len by (simp add: groups_by_key_def fo' g)
      next
        case False
        then have "?fo ! j \<noteq> k"
          using i j distinct_first_occurrences [of "truthy_keys cs"]
          by (auto simp add: distinct_conv_nth)
        then show ?thesis
          using False i j k len by (simp add: groups_by_key_def fo' g)
      qed
    qed
    moreover have "add_component st c = (groups[i := groups ! i @ [c]], idx)"
      using Some k by (simp add: add_component_def st)
    ultimately show ?thesis
      using idx by (simp add: group_inv_def fo')
  qed
qed

lemma group_inv_components:
  "group_inv cs st \<Longrightarrow> group_inv (cs @ ds) (foldl add_component st ds)"
proof (induction ds arbitrary: cs st)
  case Nil
  then show ?case by simp
next
  case (Cons d ds)
  from Cons.IH [OF group_inv_step [OF Cons.prems, of d]] show ?case by simp
qed

lemma group_inv_structures:
  "group_inv cs st \<Longrightarrow>
   group_inv (cs @ concat (map components ss)) (foldl add_structure st ss)"
proof (induction ss arbitrary: cs st)
  case Nil
  then show ?case by simp
next
  case (Cons s ss)
  have "group_inv (cs @ components s) (add_structure st s)"
    unfolding add_structure_def using Cons.prems by (rule group_inv_components)
  from Cons.IH [OF this] show ?case by simp
qed

lemma getComponentGroups_many:
  assumes "2 \<le> length ss"
  shows "getComponentGroups ss = groups_by_key (concat (map components ss))"
proof -
  obtain a b rest where ss: "ss = a # b # rest"
    using assms by (cases ss; cases "tl ss") auto
  have "group_inv ([] @ concat (map components ss)) (foldl add_structure ([], Map.empty) ss)"
    using group_inv_empty by (rule group_inv_structures)
  then have "fst (foldl add_structure ([], Map.empty) ss) = groups_by_key (concat (map components ss))"
    by (simp add: group_inv_def)
  then show ?thesis
    by (simp add: ss)
qed

text \<open>
  C10. \<open>getComponentGroups\<close> of no structure is the empty list; of one structure it is
  one singleton group per component, whatever the keys; of two or more structures it
  is the grouping of all their components by key in first-encounter order, and no
  component with an undefined or empty key is in any group.
\<close>

theorem getComponentGroups_cases:
  "getComponentGroups [] = []
   \<and> getComponentGroups [s] = map (\<lambda>c. [c]) (components s)
   \<and> (2 \<le> length ss \<longrightarrow>
        getComponentGroups ss = groups_by_key (concat (map components ss))
        \<and> (\<forall>g\<in>set (getComponentGroups ss). \<forall>c\<in>set g. \<not> falsy_key (key c)))"
proof (intro conjI impI)
  assume 2: "2 \<le> length ss"
  show eq: "getComponentGroups ss = groups_by_key (concat (map components ss))"
    using 2 by (rule getComponentGroups_many)
  show "\<forall>g\<in>set (getComponentGroups ss). \<forall>c\<in>set g. \<not> falsy_key (key c)"
    unfolding eq groups_by_key_def using truthy_keys_nonempty by auto
qed simp_all

theorem getComponentGroups_cases_witness:
  "2 \<le> length [sX, sY] \<and>
   getComponentGroups [sX] = [[cA], [cB], [cC]] \<and>
   getComponentGroups [sX, sY] = [[cA, cD], [cC]]"
proof -
  have two: "2 \<le> length [sX, sY]"
    by simp
  have "getComponentGroups [sX, sY] = groups_by_key (concat (map components [sX, sY]))"
    using getComponentGroups_cases [of sX "[sX, sY]"] two by blast
  moreover have "getComponentGroups [sX] = map (\<lambda>c. [c]) (components sX)"
    using getComponentGroups_cases [of sX "[sX, sY]"] by blast
  ultimately show ?thesis
    by (simp add: groups_by_key_def truthy_keys_def sX_def sY_def cA_def cB_def cC_def cD_def cE_def)
qed

section \<open>Properties of the test transforms\<close>

text \<open>
  C9. The transform named \<open>create-circle\<close> declares the output type set \<open>[Square]\<close>, and
  for every parent object and every parameter value its \<open>apply\<close> returns a Circle, whose
  type is not in that set.
\<close>

theorem CreateCircle_declared_output:
  "t_name CreateCircle = ''create-circle''
   \<and> t_to CreateCircle = [SquareT]
   \<and> (\<forall>a p. t_apply CreateCircle a p = Inr (Circle \<lparr>label = CircleLabel (circ_r p)\<rparr> p)
            \<and> type_of (Circle \<lparr>label = CircleLabel (circ_r p)\<rparr> p) = CircleT)
   \<and> CircleT \<notin> set (t_to CreateCircle)"
  by (simp add: CreateCircle_def)

section \<open>Properties of the state tree and the builder\<close>

subsection \<open>The scenario tree\<close>

lemma scenario_tree_root: "rootRef (scenario_tree squareKind areaKind areaRef x v) = ''R''"
  by (simp add: scenario_tree_def)

lemma scenario_tree_order:
  assumes fresh: "areaRef \<noteq> ''R''" "areaRef \<noteq> ''sq''"
  shows "subtreeRefs (scenario_tree squareKind areaKind areaRef x v) ''R'' = [''R'', ''sq'', areaRef]"
  using fresh fresh [symmetric]
  by (simp add: subtreeRefs_def edge_count_def scenario_tree_def numeral_2_eq_2 children_of_def)

lemma scenario_tree_parent:
  assumes fresh: "areaRef \<noteq> ''R''" "areaRef \<noteq> ''sq''"
  shows "parent (scenario_tree squareKind areaKind areaRef x v) ''R'' = None"
    and "parent (scenario_tree squareKind areaKind areaRef x v) ''sq'' = Some ''R''"
    and "parent (scenario_tree squareKind areaKind areaRef x v) areaRef = Some ''sq''"
  using fresh fresh [symmetric]
  by (simp_all add: parent_def scenario_tree_def)

lemma scenario_tree_node:
  assumes fresh: "areaRef \<noteq> ''R''" "areaRef \<noteq> ''sq''"
  shows "node (scenario_tree squareKind areaKind areaRef x v) ''sq'' =
           Some \<lparr>n_ref = ''sq'', n_kind = squareKind, n_params = SquareParams \<lparr>sq_a = x\<rparr>, n_version = v, n_flags = no_flags\<rparr>"
    and "node (scenario_tree squareKind areaKind areaRef x v) areaRef =
           Some \<lparr>n_ref = areaRef, n_kind = areaKind, n_params = NoParams, n_version = 0, n_flags = no_flags\<rparr>"
    and "node (scenario_tree squareKind areaKind areaRef x v) ''R'' =
           Some \<lparr>n_ref = ''R'', n_kind = ''root'', n_params = NoParams, n_version = 0, n_flags = no_flags\<rparr>"
  using fresh fresh [symmetric]
  by (simp_all add: node_def scenario_tree_def)

lemma scenario_tree_children:
  "children_of (scenario_tree squareKind areaKind areaRef x v) ''sq'' = [areaRef]"
  by (simp add: children_of_def scenario_tree_def)

lemma scenario_tree_child_rel:
  assumes fresh: "areaRef \<noteq> ''R''" "areaRef \<noteq> ''sq''"
  shows "child_rel (scenario_tree squareKind areaKind areaRef x v) = {(''R'', ''sq''), (''sq'', areaRef)}"
  using fresh fresh [symmetric]
  by (auto simp add: child_rel_def children_of_def scenario_tree_def split: if_splits)

lemma valid_scenario_tree:
  assumes fresh: "areaRef \<noteq> ''R''" "areaRef \<noteq> ''sq''"
  shows "valid_tree (scenario_tree squareKind areaKind areaRef x v)"
proof -
  let ?rank = "\<lambda>r. if r = ''R'' then 2 else if r = ''sq'' then 1 else (0::nat)"
  have "acyclic (child_rel (scenario_tree squareKind areaKind areaRef x v))"
  proof (rule acyclicI_order [where f = ?rank])
    fix a b assume "(a, b) \<in> child_rel (scenario_tree squareKind areaKind areaRef x v)"
    then show "?rank b < ?rank a"
      using fresh by (auto simp add: scenario_tree_child_rel [OF fresh])
  qed
  moreover have "rootRef (scenario_tree squareKind areaKind areaRef x v) = ''R''"
    and "map fst (nodes (scenario_tree squareKind areaKind areaRef x v)) = [''R'', ''sq'', areaRef]"
    and "map fst (children (scenario_tree squareKind areaKind areaRef x v)) = [''R'', ''sq'', areaRef]"
    and "concat (map snd (children (scenario_tree squareKind areaKind areaRef x v))) = [''sq'', areaRef]"
    and "\<forall>kn\<in>set (nodes (scenario_tree squareKind areaKind areaRef x v)). n_ref (snd kn) = fst kn"
    by (simp_all add: scenario_tree_def)
  ultimately show ?thesis
    unfolding valid_tree_def using fresh fresh [symmetric] by simp
qed

subsection \<open>Descendants\<close>

lemma subtree_fuel_head: "r \<in> set (subtree_fuel n t r)"
  by (cases n) simp_all

lemma subtree_fuel_sound:
  "x \<in> set (subtree_fuel n t r) \<Longrightarrow> (r, x) \<in> (child_rel t)\<^sup>*"
proof (induction n arbitrary: r)
  case 0
  then show ?case by simp
next
  case (Suc n)
  show ?case
  proof (cases "x = r")
    case True
    then show ?thesis by simp
  next
    case False
    with Suc.prems obtain c where c: "c \<in> set (children_of t r)" "x \<in> set (subtree_fuel n t c)"
      by auto
    from c(1) have "(r, c) \<in> child_rel t"
      by (simp add: child_rel_def)
    then show ?thesis
      using Suc.IH [OF c(2)] by (rule converse_rtrancl_into_rtrancl)
  qed
qed

lemma subtree_fuel_relpow:
  "(r, x) \<in> child_rel t ^^ k \<Longrightarrow> k \<le> n \<Longrightarrow> x \<in> set (subtree_fuel n t r)"
proof (induction n arbitrary: r k)
  case 0
  then show ?case by simp
next
  case (Suc n)
  show ?case
  proof (cases k)
    case 0
    with Suc.prems show ?thesis by simp
  next
    case (Suc k')
    with Suc.prems obtain y where y: "(r, y) \<in> child_rel t" "(y, x) \<in> child_rel t ^^ k'"
      by (blast dest: relpow_Suc_D2)
    from Suc.prems Suc have "k' \<le> n" by simp
    from Suc.IH [OF y(2) this] y(1) show ?thesis
      by (auto simp add: child_rel_def)
  qed
qed

lemma child_rel_edges:
  "child_rel t \<subseteq> set (concat (map (\<lambda>kc. map (Pair (fst kc)) (snd kc)) (children t)))"
proof
  fix e assume "e \<in> child_rel t"
  then obtain p c where e: "e = (p, c)" and c: "c \<in> set (children_of t p)"
    by (auto simp add: child_rel_def)
  from c obtain cs where "map_of (children t) p = Some cs" "c \<in> set cs"
    by (cases "map_of (children t) p") (auto simp add: children_of_def)
  then have "(p, cs) \<in> set (children t)" "c \<in> set cs"
    by (auto dest: map_of_SomeD)
  then show "e \<in> set (concat (map (\<lambda>kc. map (Pair (fst kc)) (snd kc)) (children t)))"
    unfolding e by force
qed

lemma length_edges:
  "length (concat (map (\<lambda>kc. map (Pair (fst kc)) (snd kc)) al)) = length (concat (map snd al))"
  by (induction al) simp_all

lemma finite_child_rel: "finite (child_rel t)"
  using child_rel_edges by (rule finite_subset) simp

lemma card_child_rel: "card (child_rel t) \<le> edge_count t"
proof -
  have "card (child_rel t) \<le> card (set (concat (map (\<lambda>kc. map (Pair (fst kc)) (snd kc)) (children t))))"
    using child_rel_edges by (rule card_mono [rotated]) simp
  also have "\<dots> \<le> length (concat (map (\<lambda>kc. map (Pair (fst kc)) (snd kc)) (children t)))"
    by (rule card_length)
  finally show ?thesis
    by (simp add: edge_count_def length_edges)
qed

lemma subtreeRefs_reachable: "set (subtreeRefs t r) = {x. (r, x) \<in> (child_rel t)\<^sup>*}"
proof (intro set_eqI iffI)
  fix x assume "x \<in> set (subtreeRefs t r)"
  then show "x \<in> {x. (r, x) \<in> (child_rel t)\<^sup>*}"
    by (simp add: subtreeRefs_def subtree_fuel_sound)
next
  fix x assume "x \<in> {x. (r, x) \<in> (child_rel t)\<^sup>*}"
  then have "(r, x) \<in> (\<Union>n\<in>{n. n \<le> card (child_rel t)}. child_rel t ^^ n)"
    using rtrancl_finite_eq_relpow [OF finite_child_rel [where t = t]] by simp
  then obtain k where "k \<le> card (child_rel t)" "(r, x) \<in> child_rel t ^^ k"
    by auto
  then show "x \<in> set (subtreeRefs t r)"
    unfolding subtreeRefs_def using card_child_rel [where t = t]
    by (intro subtree_fuel_relpow [where k = k]) simp_all
qed

lemma transact_rejected:
  "commit reg (tree st) edits = Inl e \<Longrightarrow> transact reg st edits = (st, Some e)"
  by (simp add: transact_def)

lemma apply_edits_append:
  "apply_edits reg ts (es @ es') =
     (case apply_edits reg ts es of Inl e \<Rightarrow> Inl e | Inr ts' \<Rightarrow> apply_edits reg ts' es')"
  by (induction es arbitrary: ts) (simp_all split: sum.splits)

text \<open>
  C7. When \<open>p\<close> is \<open>r\<close> or a descendant of \<open>r\<close> in a tree \<open>t\<close>, \<open>reparent t r p\<close>
  fails with Cycle; and a transaction that reaches \<open>t\<close> by its earlier edits and then
  holds this reparent is rejected with Cycle, the state (its tree with it) left exactly
  as it was, whatever edits come before and after.
\<close>

theorem reparent_cycle_rejected:
  assumes desc: "(r, p) \<in> (child_rel t)\<^sup>*"
      and pre: "commit reg (tree st) pre = Inr (t, s)"
  shows "reparent t r p = Inl Cycle
       \<and> commit reg (tree st) (pre @ Reparent r p # post) = Inl Cycle
       \<and> transact reg st (pre @ Reparent r p # post) = (st, Some Cycle)"
proof -
  have "p \<in> set (subtreeRefs t r)"
    using desc by (simp add: subtreeRefs_reachable)
  then have cyc: "reparent t r p = Inl Cycle"
    by (simp add: reparent_def)
  have "commit reg (tree st) (pre @ Reparent r p # post) = Inl Cycle"
    using pre cyc by (simp add: commit_def apply_edits_append)
  with cyc show ?thesis
    by (simp add: transact_rejected)
qed

theorem reparent_cycle_rejected_witness:
  "(''sq'', ''ar'') \<in> (child_rel (scenario_tree ''create-square'' ''calc-area'' ''ar'' 10 0))\<^sup>*
   \<and> commit test_registry (tree (create ''R'' root_object))
         (scenario_apply ''create-square'' ''calc-area'' ''ar'')
       = Inr (scenario_tree ''create-square'' ''calc-area'' ''ar'' 10 0,
              \<lparr>cs_added = [''sq'', ''ar''], cs_updated = [], cs_removed = []\<rparr>)
   \<and> reparent (scenario_tree ''create-square'' ''calc-area'' ''ar'' 10 0) ''sq'' ''ar'' = Inl Cycle
   \<and> transact test_registry (create ''R'' root_object)
         (scenario_apply ''create-square'' ''calc-area'' ''ar'' @ [Reparent ''sq'' ''ar''])
       = (create ''R'' root_object, Some Cycle)"
proof -
  have fresh: "''ar'' \<noteq> ''R''" "''ar'' \<noteq> ''sq''"
    by simp_all
  have "(''sq'', ''ar'') \<in> child_rel (scenario_tree ''create-square'' ''calc-area'' ''ar'' 10 0)"
    by (simp add: scenario_tree_child_rel [OF fresh])
  then have desc: "(''sq'', ''ar'') \<in> (child_rel (scenario_tree ''create-square'' ''calc-area'' ''ar'' 10 0))\<^sup>*"
    by (rule r_into_rtrancl)
  have pre: "commit test_registry (tree (create ''R'' root_object))
         (scenario_apply ''create-square'' ''calc-area'' ''ar'')
       = Inr (scenario_tree ''create-square'' ''calc-area'' ''ar'' 10 0,
              \<lparr>cs_added = [''sq'', ''ar''], cs_updated = [], cs_removed = []\<rparr>)"
    by (simp add: commit_def scenario_apply_def create_def applyTransform_def node_def lookup_def
        test_registry_def RootTransform_def registered_def CreateSquare_def CaclArea_def
        children_of_def no_changes_def scenario_tree_def)
  show ?thesis
    using desc pre reparent_cycle_rejected [OF desc pre, of "[]"] by simp
qed

lemma transact_atomic:
  "snd (transact reg st edits) \<noteq> None \<Longrightarrow> fst (transact reg st edits) = st"
  by (auto simp add: transact_def split: sum.splits)

subsection \<open>Parameter updates\<close>

lemma updateParams_result:
  assumes "node t r = Some n"
  shows "\<exists>t'. updateParams t r p = Inr t' \<and> children t' = children t \<and> rootRef t' = rootRef t
            \<and> map fst (nodes t') = map fst (nodes t)
            \<and> node t' r = Some (n\<lparr>n_params := p, n_version := Suc (n_version n)\<rparr>)
            \<and> (\<forall>r'. r' \<noteq> r \<longrightarrow> node t' r' = node t r')"
proof -
  have "r \<in> set (map fst (nodes t))"
    using assms by (auto simp add: node_def dest: map_of_SomeD intro: rev_image_eqI)
  then show ?thesis
    using assms by (simp add: updateParams_def node_def update_keys update_conv')
qed

lemma update_edits_frame:
  assumes "\<forall>rp\<in>set ups. node t (fst rp) \<noteq> None"
  shows "\<exists>t' s'. apply_edits reg (t, s) (update_edits ups) = Inr (t', s')
           \<and> children t' = children t \<and> rootRef t' = rootRef t
           \<and> map fst (nodes t') = map fst (nodes t)
           \<and> s' = s\<lparr>cs_updated := cs_updated s @ map fst ups\<rparr>
           \<and> (\<forall>r. r \<notin> fst ` set ups \<longrightarrow> node t' r = node t r)
           \<and> (\<forall>r n. node t r = Some n \<longrightarrow>
                 (\<exists>n'. node t' r = Some n' \<and> n_version n \<le> n_version n'
                    \<and> (r \<in> fst ` set ups \<longrightarrow> n_version n < n_version n')))"
  using assms
proof (induction ups arbitrary: t s)
  case Nil
  then show ?case by (simp add: update_edits_def)
next
  case (Cons rp ups)
  obtain r p where rp: "rp = (r, p)" by (cases rp)
  from Cons.prems rp obtain n where n: "node t r = Some n" by auto
  from updateParams_result [OF n, of p] obtain t1 where t1:
    "updateParams t r p = Inr t1" "children t1 = children t" "rootRef t1 = rootRef t"
    "map fst (nodes t1) = map fst (nodes t)"
    "node t1 r = Some (n\<lparr>n_params := p, n_version := Suc (n_version n)\<rparr>)"
    "\<And>r'. r' \<noteq> r \<Longrightarrow> node t1 r' = node t r'"
    by blast
  have keep: "\<And>x. node t x \<noteq> None \<Longrightarrow> node t1 x \<noteq> None"
    using t1(5,6) by (metis option.distinct(1))
  have pre: "\<forall>rp\<in>set ups. node t1 (fst rp) \<noteq> None"
    using Cons.prems keep by simp
  from Cons.IH [OF pre, of "s\<lparr>cs_updated := cs_updated s @ [r]\<rparr>"] obtain t' s' where IH:
    "apply_edits reg (t1, s\<lparr>cs_updated := cs_updated s @ [r]\<rparr>) (update_edits ups) = Inr (t', s')"
    "children t' = children t1" "rootRef t' = rootRef t1"
    "map fst (nodes t') = map fst (nodes t1)"
    "s' = s\<lparr>cs_updated := cs_updated s @ [r]\<rparr>\<lparr>cs_updated := cs_updated (s\<lparr>cs_updated := cs_updated s @ [r]\<rparr>) @ map fst ups\<rparr>"
    "\<And>x. x \<notin> fst ` set ups \<Longrightarrow> node t' x = node t1 x"
    "\<And>x m. node t1 x = Some m \<Longrightarrow>
        \<exists>n'. node t' x = Some n' \<and> n_version m \<le> n_version n'
           \<and> (x \<in> fst ` set ups \<longrightarrow> n_version m < n_version n')"
    by blast
  have run: "apply_edits reg (t, s) (update_edits (rp # ups)) = Inr (t', s')"
    using t1(1) IH(1) by (simp add: update_edits_def rp)
  have frame: "\<forall>x. x \<notin> fst ` set (rp # ups) \<longrightarrow> node t' x = node t x"
    using IH(6) t1(6) by (simp add: rp)
  have vers: "\<forall>x m. node t x = Some m \<longrightarrow>
        (\<exists>n'. node t' x = Some n' \<and> n_version m \<le> n_version n'
           \<and> (x \<in> fst ` set (rp # ups) \<longrightarrow> n_version m < n_version n'))"
  proof (intro allI impI)
    fix x m assume m: "node t x = Some m"
    show "\<exists>n'. node t' x = Some n' \<and> n_version m \<le> n_version n'
           \<and> (x \<in> fst ` set (rp # ups) \<longrightarrow> n_version m < n_version n')"
    proof (cases "x = r")
      case True
      with m n have mn: "m = n" by simp
      from IH(7) [OF t1(5)] obtain n' where
        "node t' r = Some n'" "Suc (n_version n) \<le> n_version n'"
        by auto
      then show ?thesis using True mn by auto
    next
      case False
      then have "node t1 x = Some m" using m t1(6) by simp
      from IH(7) [OF this] show ?thesis using False by (auto simp add: rp)
    qed
  qed
  show ?case
    using run IH(2,3,4,5) t1(2,3,4) frame vers by (simp add: rp)
qed

text \<open>
  C3. A transaction that only calls \<open>updateParams\<close> on refs of the base tree commits;
  in the committed tree every ref that was not updated has the node it had, every ref
  has the parent and the ordered child list it had (the two mappings are values, so
  equal is the same), and at each updated ref the version is strictly greater.
\<close>

theorem updateParams_ref_stability:
  assumes "\<forall>rp\<in>set ups. node base (fst rp) \<noteq> None"
  shows "\<exists>t' s. commit reg base (update_edits ups) = Inr (t', s)
           \<and> cs_added s = [] \<and> cs_removed s = [] \<and> cs_updated s = map fst ups
           \<and> rootRef t' = rootRef base
           \<and> map fst (nodes t') = map fst (nodes base)
           \<and> (\<forall>r. r \<notin> fst ` set ups \<longrightarrow> node t' r = node base r)
           \<and> (\<forall>r. parent t' r = parent base r)
           \<and> (\<forall>r. children_of t' r = children_of base r)
           \<and> (\<forall>r\<in>fst ` set ups. \<exists>n n'. node base r = Some n \<and> node t' r = Some n'
                  \<and> n_version n < n_version n')"
proof -
  from update_edits_frame [OF assms, of reg no_changes] obtain t' s where r:
    "apply_edits reg (base, no_changes) (update_edits ups) = Inr (t', s)"
    "children t' = children base" "rootRef t' = rootRef base"
    "map fst (nodes t') = map fst (nodes base)"
    "s = no_changes\<lparr>cs_updated := cs_updated no_changes @ map fst ups\<rparr>"
    "\<And>x. x \<notin> fst ` set ups \<Longrightarrow> node t' x = node base x"
    "\<And>x m. node base x = Some m \<Longrightarrow>
        \<exists>n'. node t' x = Some n' \<and> n_version m \<le> n_version n'
           \<and> (x \<in> fst ` set ups \<longrightarrow> n_version m < n_version n')"
    by blast
  have bump: "\<forall>r\<in>fst ` set ups. \<exists>n n'. node base r = Some n \<and> node t' r = Some n'
                  \<and> n_version n < n_version n'"
  proof
    fix x assume x: "x \<in> fst ` set ups"
    with assms obtain m where m: "node base x = Some m" by auto
    from r(7) [OF m] x m show "\<exists>n n'. node base x = Some n \<and> node t' x = Some n'
                  \<and> n_version n < n_version n'" by auto
  qed
  have "commit reg base (update_edits ups) = Inr (t', s)"
    using r(1) by (simp add: commit_def)
  moreover have "cs_added s = [] \<and> cs_removed s = [] \<and> cs_updated s = map fst ups"
    by (simp add: r(5) no_changes_def)
  moreover have "\<forall>x. parent t' x = parent base x" "\<forall>x. children_of t' x = children_of base x"
    by (simp_all add: parent_def children_of_def r(2))
  ultimately show ?thesis
    using r(3,4,6) bump by blast
qed

theorem updateParams_ref_stability_witness:
  "node (scenario_tree ''create-square'' ''calc-area'' ''ar'' 10 0) ''sq'' \<noteq> None
   \<and> (\<exists>t' s. commit test_registry (scenario_tree ''create-square'' ''calc-area'' ''ar'' 10 0)
               (update_edits [(''sq'', SquareParams \<lparr>sq_a = 15\<rparr>)]) = Inr (t', s)
        \<and> node t' ''R'' = node (scenario_tree ''create-square'' ''calc-area'' ''ar'' 10 0) ''R''
        \<and> node t' ''ar'' = node (scenario_tree ''create-square'' ''calc-area'' ''ar'' 10 0) ''ar''
        \<and> parent t' ''ar'' = Some ''sq''
        \<and> children_of t' ''sq'' = [''ar'']
        \<and> map_option n_version (node (scenario_tree ''create-square'' ''calc-area'' ''ar'' 10 0) ''sq'') = Some 0
        \<and> map_option n_version (node t' ''sq'') = Some 1)"
proof -
  let ?base = "scenario_tree ''create-square'' ''calc-area'' ''ar'' 10 0"
  have fresh: "''ar'' \<noteq> ''R''" "''ar'' \<noteq> ''sq''"
    by simp_all
  have ex: "node ?base ''sq'' \<noteq> None"
    by (simp add: scenario_tree_node [OF fresh])
  then have pre: "\<forall>rp\<in>set [(''sq'', SquareParams \<lparr>sq_a = 15\<rparr>)]. node ?base (fst rp) \<noteq> None"
    by simp
  from updateParams_ref_stability [OF pre, of test_registry] obtain t' s where r:
    "commit test_registry ?base (update_edits [(''sq'', SquareParams \<lparr>sq_a = 15\<rparr>)]) = Inr (t', s)"
    "\<forall>r. r \<notin> fst ` set [(''sq'', SquareParams \<lparr>sq_a = 15\<rparr>)] \<longrightarrow> node t' r = node ?base r"
    "\<forall>r. parent t' r = parent ?base r"
    "\<forall>r. children_of t' r = children_of ?base r"
    by blast
  have t': "t' = scenario_tree ''create-square'' ''calc-area'' ''ar'' 15 1"
    using r(1) by (simp add: update_edits_def commit_def updateParams_def
        scenario_tree_node [OF fresh] no_changes_def) (simp add: scenario_tree_def)
  have "node t' ''R'' = node ?base ''R''" "node t' ''ar'' = node ?base ''ar''"
    using r(2) by simp_all
  moreover have "parent t' ''ar'' = Some ''sq''" "children_of t' ''sq'' = [''ar'']"
    using r(3,4) by (simp_all add: scenario_tree_parent [OF fresh] scenario_tree_children)
  moreover have "map_option n_version (node ?base ''sq'') = Some 0"
    "map_option n_version (node t' ''sq'') = Some 1"
    by (simp_all add: t' scenario_tree_node [OF fresh])
  ultimately show ?thesis
    using ex r(1) by blast
qed

subsection \<open>The shape of a valid tree\<close>

lemma parent_SomeD:
  assumes "parent t c = Some p"
  shows "\<exists>cs. (p, cs) \<in> set (children t) \<and> c \<in> set cs"
proof -
  from assms obtain kc where "find (\<lambda>kc. c \<in> set (snd kc)) (children t) = Some kc" "fst kc = p"
    by (auto simp add: parent_def)
  then have "kc \<in> set (children t)" "c \<in> set (snd kc)"
    by (auto simp add: find_Some_iff)
  with \<open>fst kc = p\<close> show ?thesis
    by (cases kc) auto
qed

lemma parent_in_tree:
  assumes "valid_tree t" "parent t c = Some p"
  shows "p \<in> set (map fst (nodes t)) \<and> c \<in> set (map fst (nodes t))"
proof -
  from parent_SomeD [OF assms(2)] obtain cs where cs: "(p, cs) \<in> set (children t)" "c \<in> set cs"
    by blast
  from cs have "p \<in> set (map fst (children t))"
    by force
  moreover from cs have "c \<in> set (concat (map snd (children t)))"
    by force
  ultimately show ?thesis
    using assms(1) unfolding valid_tree_def by blast
qed

lemma valid_tree_distinct_nodes: "valid_tree t \<Longrightarrow> distinct (map fst (nodes t))"
  and valid_tree_distinct_children: "valid_tree t \<Longrightarrow> distinct (map fst (children t))"
  and valid_tree_same_refs: "valid_tree t \<Longrightarrow> set (map fst (children t)) = set (map fst (nodes t))"
  and valid_tree_root: "valid_tree t \<Longrightarrow> rootRef t \<in> set (map fst (nodes t))"
  and valid_tree_root_no_parent: "valid_tree t \<Longrightarrow> rootRef t \<notin> set (concat (map snd (children t)))"
  and valid_tree_children_nodes:
    "valid_tree t \<Longrightarrow> set (concat (map snd (children t))) \<subseteq> set (map fst (nodes t))"
  and valid_tree_acyclic: "valid_tree t \<Longrightarrow> acyclic (child_rel t)"
  by (simp_all add: valid_tree_def)

lemma valid_tree_node_ref: "valid_tree t \<Longrightarrow> (r, n) \<in> set (nodes t) \<Longrightarrow> n_ref n = r"
  by (force simp add: valid_tree_def)

lemma valid_tree_one_parent:
  assumes "valid_tree t" "r \<in> set (map fst (nodes t))" "r \<noteq> rootRef t"
  shows "length (filter (\<lambda>c. c = r) (concat (map snd (children t)))) = 1"
proof -
  from assms(1) have "\<forall>r\<in>set (map fst (nodes t)). r \<noteq> rootRef t \<longrightarrow>
      length (filter (\<lambda>c. c = r) (concat (map snd (children t)))) = 1"
    by (simp add: valid_tree_def)
  with assms(2,3) show ?thesis
    by blast
qed

lemma count_ge_1: "c \<in> set xs \<Longrightarrow> 1 \<le> length (filter (\<lambda>x. x = c) xs)"
  by (induction xs) auto

lemma count_two_entries:
  assumes "(k1, cs1) \<in> set al" "(k2, cs2) \<in> set al" "k1 \<noteq> k2" "c \<in> set cs1" "c \<in> set cs2"
  shows "2 \<le> length (filter (\<lambda>x. x = c) (concat (map snd al)))"
  using assms
proof (induction al)
  case Nil
  then show ?case by simp
next
  case (Cons e al)
  have in_rest: "\<And>k cs. (k, cs) \<in> set al \<Longrightarrow> c \<in> set cs \<Longrightarrow>
      1 \<le> length (filter (\<lambda>x. x = c) (concat (map snd al)))"
    by (rule count_ge_1) force
  consider "e = (k1, cs1)" "(k2, cs2) \<in> set al" | "e = (k2, cs2)" "(k1, cs1) \<in> set al"
    | "(k1, cs1) \<in> set al" "(k2, cs2) \<in> set al"
    using Cons.prems by auto
  then show ?case
  proof cases
    case 1
    then show ?thesis
      using in_rest [OF 1(2) Cons.prems(5)] count_ge_1 [OF Cons.prems(4)] by simp
  next
    case 2
    then show ?thesis
      using in_rest [OF 2(2) Cons.prems(4)] count_ge_1 [OF Cons.prems(5)] by simp
  next
    case 3
    from Cons.IH [OF 3 Cons.prems(3,4,5)] show ?thesis by simp
  qed
qed

lemma children_of_entry:
  "c \<in> set (children_of t p) \<Longrightarrow> \<exists>cs. map_of (children t) p = Some cs \<and> c \<in> set cs"
  by (cases "map_of (children t) p") (auto simp add: children_of_def)

lemma valid_child:
  assumes "valid_tree t" "c \<in> set (children_of t p)"
  shows "p \<in> set (map fst (nodes t))" "c \<in> set (map fst (nodes t))" "c \<noteq> rootRef t"
proof -
  from children_of_entry [OF assms(2)] obtain cs where
    cs: "map_of (children t) p = Some cs" "c \<in> set cs"
    by blast
  then have e: "(p, cs) \<in> set (children t)"
    by (auto dest: map_of_SomeD)
  then have "p \<in> set (map fst (children t))"
    by force
  then show "p \<in> set (map fst (nodes t))"
    using valid_tree_same_refs [OF assms(1)] by simp
  from e cs(2) have c: "c \<in> set (concat (map snd (children t)))"
    by force
  then show "c \<in> set (map fst (nodes t))"
    using valid_tree_children_nodes [OF assms(1)] by blast
  from c show "c \<noteq> rootRef t"
    using valid_tree_root_no_parent [OF assms(1)] by blast
qed

lemma child_iff_parent:
  assumes "valid_tree t"
  shows "c \<in> set (children_of t p) \<longleftrightarrow> parent t c = Some p"
proof
  assume "parent t c = Some p"
  from parent_SomeD [OF this] obtain cs where cs: "(p, cs) \<in> set (children t)" "c \<in> set cs"
    by blast
  have "distinct (map fst (children t))"
    using assms by (rule valid_tree_distinct_children)
  then have "map_of (children t) p = Some cs"
    using cs(1) by simp
  then show "c \<in> set (children_of t p)"
    using cs(2) by (simp add: children_of_def)
next
  assume c: "c \<in> set (children_of t p)"
  from children_of_entry [OF c] obtain cs where
    cs: "map_of (children t) p = Some cs" "c \<in> set cs"
    by blast
  then have e: "(p, cs) \<in> set (children t)"
    by (auto dest: map_of_SomeD)
  have "\<exists>kc. kc \<in> set (children t) \<and> c \<in> set (snd kc)"
    using e cs(2) by force
  then obtain kc where f: "find (\<lambda>kc. c \<in> set (snd kc)) (children t) = Some kc"
    by (cases "find (\<lambda>kc. c \<in> set (snd kc)) (children t)") (auto simp add: find_None_iff)
  then have kc: "kc \<in> set (children t)" "c \<in> set (snd kc)"
    by (auto simp add: find_Some_iff)
  have one: "length (filter (\<lambda>x. x = c) (concat (map snd (children t)))) = 1"
    using valid_child [OF assms c] by (intro valid_tree_one_parent [OF assms])
  have "fst kc = p"
  proof (rule ccontr)
    assume "fst kc \<noteq> p"
    with count_two_entries [of "fst kc" "snd kc" "children t" p cs c] kc e cs(2)
    have "2 \<le> length (filter (\<lambda>x. x = c) (concat (map snd (children t))))"
      by simp
    with one show False by simp
  qed
  then show "parent t c = Some p"
    using f by (simp add: parent_def)
qed

lemma child_rel_parent:
  "valid_tree t \<Longrightarrow> (p, c) \<in> child_rel t \<longleftrightarrow> parent t c = Some p"
  by (simp add: child_rel_def child_iff_parent)

lemma unique_parent:
  "valid_tree t \<Longrightarrow> (p, c) \<in> child_rel t \<Longrightarrow> (p', c) \<in> child_rel t \<Longrightarrow> p = p'"
  by (simp add: child_rel_parent)

lemma root_no_parent: "valid_tree t \<Longrightarrow> (p, rootRef t) \<notin> child_rel t"
  using valid_child(3) by (auto simp add: child_rel_def)

lemma distinct_count: "(\<forall>c\<in>set xs. length (filter (\<lambda>x. x = c) xs) \<le> 1) \<Longrightarrow> distinct xs"
proof (induction xs)
  case Nil
  then show ?case by simp
next
  case (Cons x xs)
  have "x \<notin> set xs"
  proof
    assume "x \<in> set xs"
    then have "1 \<le> length (filter (\<lambda>y. y = x) xs)"
      by (rule count_ge_1)
    moreover have "length (filter (\<lambda>y. y = x) (x # xs)) \<le> 1"
      using Cons.prems by (simp del: filter.simps)
    ultimately show False
      by simp
  qed
  moreover have "\<forall>c\<in>set xs. length (filter (\<lambda>y. y = c) xs) \<le> 1"
  proof
    fix c assume "c \<in> set xs"
    then have "length (filter (\<lambda>y. y = c) (x # xs)) \<le> 1"
      using Cons.prems by (simp del: filter.simps)
    moreover have "length (filter (\<lambda>y. y = c) xs) \<le> length (filter (\<lambda>y. y = c) (x # xs))"
      by simp
    ultimately show "length (filter (\<lambda>y. y = c) xs) \<le> 1"
      by (rule order_trans [rotated])
  qed
  ultimately show ?case
    using Cons.IH by simp
qed

lemma count_entry_le:
  "(k, cs) \<in> set al \<Longrightarrow>
   length (filter (\<lambda>x. x = c) cs) \<le> length (filter (\<lambda>x. x = c) (concat (map snd al)))"
  by (induction al) auto

lemma distinct_children_of:
  assumes "valid_tree t"
  shows "distinct (children_of t p)"
proof (cases "map_of (children t) p")
  case None
  then show ?thesis by (simp add: children_of_def)
next
  case (Some cs)
  then have e: "(p, cs) \<in> set (children t)"
    by (auto dest: map_of_SomeD)
  have "\<forall>c\<in>set cs. length (filter (\<lambda>x. x = c) cs) \<le> 1"
  proof
    fix c assume "c \<in> set cs"
    then have "c \<in> set (children_of t p)"
      using Some by (simp add: children_of_def)
    from valid_child [OF assms this]
    have "length (filter (\<lambda>x. x = c) (concat (map snd (children t)))) = 1"
      by (intro valid_tree_one_parent [OF assms])
    with count_entry_le [OF e, of c] show "length (filter (\<lambda>x. x = c) cs) \<le> 1"
      by simp
  qed
  then show ?thesis
    using Some by (simp add: children_of_def distinct_count)
qed


lemma wf_child_rel: "valid_tree t \<Longrightarrow> wf (child_rel t)"
  using finite_child_rel valid_tree_acyclic by (rule finite_acyclic_wf)

lemma no_parent_is_root:
  assumes "valid_tree t" "r \<in> set (map fst (nodes t))" "parent t r = None"
  shows "r = rootRef t"
proof (rule ccontr)
  assume "r \<noteq> rootRef t"
  from valid_tree_one_parent [OF assms(1,2) this]
  have "filter (\<lambda>c. c = r) (concat (map snd (children t))) \<noteq> []"
    by auto
  then have "r \<in> set (concat (map snd (children t)))"
    by (auto simp add: filter_empty_conv)
  then obtain kc where "kc \<in> set (children t)" "r \<in> set (snd kc)"
    by auto
  then have "find (\<lambda>kc. r \<in> set (snd kc)) (children t) \<noteq> None"
    unfolding find_None_iff by blast
  with assms(3) show False
    by (simp add: parent_def)
qed

lemma root_parent_None: "valid_tree t \<Longrightarrow> parent t (rootRef t) = None"
  using valid_tree_root_no_parent [of t] by (auto simp add: parent_def find_None_iff)

lemma all_reachable:
  assumes v: "valid_tree t"
  shows "r \<in> set (map fst (nodes t)) \<Longrightarrow> (rootRef t, r) \<in> (child_rel t)\<^sup>*"
proof (induction r rule: wf_induct_rule [OF wf_child_rel [OF v]])
  case (1 r)
  show ?case
  proof (cases "parent t r")
    case None
    from no_parent_is_root [OF v "1.prems" None] show ?thesis by simp
  next
    case (Some p)
    then have e: "(p, r) \<in> child_rel t"
      by (simp add: child_rel_parent [OF v])
    from parent_in_tree [OF v Some] have "p \<in> set (map fst (nodes t))"
      by simp
    from "1.IH" [OF e this] e show ?thesis
      by (rule rtrancl_into_rtrancl)
  qed
qed

lemma ancestors_chain:
  assumes v: "valid_tree t"
  shows "(a, x) \<in> (child_rel t)\<^sup>* \<Longrightarrow> (b, x) \<in> (child_rel t)\<^sup>* \<Longrightarrow>
         (a, b) \<in> (child_rel t)\<^sup>* \<or> (b, a) \<in> (child_rel t)\<^sup>*"
proof (induction arbitrary: b rule: rtrancl_induct)
  case base
  then show ?case by simp
next
  case (step y z)
  from step.prems show ?case
  proof (cases rule: rtranclE)
    case base
    then show ?thesis
      using step.hyps by auto
  next
    case (step y')
    then have "y' = y"
      using step.hyps(2) unique_parent [OF v] by blast
    with step(1) step.IH show ?thesis
      by simp
  qed
qed

lemma sibling_not_ancestor:
  assumes v: "valid_tree t"
      and "(r, c1) \<in> child_rel t" "(r, c2) \<in> child_rel t" "c1 \<noteq> c2"
      and "(c1, c2) \<in> (child_rel t)\<^sup>*"
  shows False
  using assms(5)
proof (cases rule: rtranclE)
  case base
  with assms(4) show False by simp
next
  case (step y)
  then have "y = r"
    using assms(3) unique_parent [OF v] by blast
  with step(1) have "(c1, r) \<in> (child_rel t)\<^sup>*"
    by simp
  with assms(2) have "(r, r) \<in> (child_rel t)\<^sup>+"
    by (rule rtrancl_into_trancl2)
  with valid_tree_acyclic [OF v] show False
    by (simp add: acyclic_def)
qed

lemma siblings_disjoint:
  assumes v: "valid_tree t"
      and "(r, c1) \<in> child_rel t" "(r, c2) \<in> child_rel t" "c1 \<noteq> c2"
      and "(c1, x) \<in> (child_rel t)\<^sup>*" "(c2, x) \<in> (child_rel t)\<^sup>*"
  shows False
  using ancestors_chain [OF v assms(5,6)]
    sibling_not_ancestor [OF v assms(2,3,4)] sibling_not_ancestor [OF v assms(3,2) assms(4) [symmetric]]
  by blast

lemma hd_subtree_fuel: "hd (subtree_fuel n t r) = r"
  by (cases n) simp_all

lemma distinct_subtree_fuel:
  assumes v: "valid_tree t"
  shows "distinct (subtree_fuel n t r)"
proof (induction n arbitrary: r)
  case 0
  then show ?case by simp
next
  case (Suc n)
  let ?cs = "children_of t r"
  let ?f = "subtree_fuel n t"
  have notin: "r \<notin> set (concat (map ?f ?cs))"
  proof
    assume "r \<in> set (concat (map ?f ?cs))"
    then obtain c where c: "c \<in> set ?cs" "r \<in> set (?f c)"
      by auto
    from c(2) have "(c, r) \<in> (child_rel t)\<^sup>*"
      by (rule subtree_fuel_sound)
    moreover from c(1) have "(r, c) \<in> child_rel t"
      by (simp add: child_rel_def)
    ultimately have "(r, r) \<in> (child_rel t)\<^sup>+"
      by (rule rtrancl_into_trancl2 [rotated])
    with valid_tree_acyclic [OF v] show False
      by (simp add: acyclic_def)
  qed
  have inj: "inj_on ?f (set ?cs)"
  proof (rule inj_onI)
    fix a b assume "?f a = ?f b"
    then have "hd (?f a) = hd (?f b)" by simp
    then show "a = b" by (simp add: hd_subtree_fuel)
  qed
  have "distinct (concat (map ?f ?cs))"
  proof (rule distinct_concat)
    show "distinct (map ?f ?cs)"
      using distinct_children_of [OF v] inj by (simp add: distinct_map)
  next
    fix ys assume "ys \<in> set (map ?f ?cs)"
    then show "distinct ys"
      using Suc.IH by auto
  next
    fix ys zs assume a: "ys \<in> set (map ?f ?cs)" "zs \<in> set (map ?f ?cs)" "ys \<noteq> zs"
    then obtain c1 c2 where c: "c1 \<in> set ?cs" "c2 \<in> set ?cs" "ys = ?f c1" "zs = ?f c2"
      by auto
    with a(3) have ne: "c1 \<noteq> c2" by auto
    show "set ys \<inter> set zs = {}"
    proof (rule ccontr)
      assume "set ys \<inter> set zs \<noteq> {}"
      then obtain x where "x \<in> set (?f c1)" "x \<in> set (?f c2)"
        using c(3,4) by auto
      then have "(c1, x) \<in> (child_rel t)\<^sup>*" "(c2, x) \<in> (child_rel t)\<^sup>*"
        by (simp_all add: subtree_fuel_sound)
      moreover have "(r, c1) \<in> child_rel t" "(r, c2) \<in> child_rel t"
        using c(1,2) by (simp_all add: child_rel_def)
      ultimately show False
        using siblings_disjoint [OF v _ _ ne] by blast
    qed
  qed
  with notin show ?case
    by simp
qed

lemma parents_first_append:
  "parents_first t S (xs @ ys) \<longleftrightarrow> parents_first t S xs \<and> parents_first t (S \<union> set xs) ys"
  by (induction xs arbitrary: S) auto

lemma parents_first_concat:
  assumes "\<And>c S'. c \<in> set cs \<Longrightarrow> r \<in> S' \<Longrightarrow> parents_first t S' (f c)"
  shows "r \<in> S \<Longrightarrow> parents_first t S (concat (map f cs))"
  using assms
proof (induction cs arbitrary: S)
  case Nil
  then show ?case by simp
next
  case (Cons c cs)
  have "parents_first t S (f c)"
    using Cons.prems by simp
  moreover have "parents_first t (S \<union> set (f c)) (concat (map f cs))"
    using Cons.prems by (intro Cons.IH) simp_all
  ultimately show ?case
    by (simp add: parents_first_append)
qed

lemma parents_first_subtree:
  assumes v: "valid_tree t"
  shows "\<exists>p\<in>S. parent t r = Some p \<Longrightarrow> parents_first t S (subtree_fuel n t r)"
proof (induction n arbitrary: r S)
  case 0
  then show ?case by simp
next
  case (Suc n)
  have "parents_first t (insert r S) (concat (map (subtree_fuel n t) (children_of t r)))"
  proof (rule parents_first_concat [where r = r])
    fix c S' assume "c \<in> set (children_of t r)" "r \<in> S'"
    then have "\<exists>p\<in>S'. parent t c = Some p"
      using child_iff_parent [OF v] by blast
    then show "parents_first t S' (subtree_fuel n t c)"
      by (rule Suc.IH)
  qed simp
  with Suc.prems show ?case
    by simp
qed

lemma order_of_valid_tree:
  assumes v: "valid_tree t"
  shows "\<exists>rest. subtreeRefs t (rootRef t) = rootRef t # rest
           \<and> distinct (rootRef t # rest) \<and> parents_first t {rootRef t} rest
           \<and> set (rootRef t # rest) = set (map fst (nodes t))"
proof -
  let ?n = "edge_count t"
  obtain rest where rest: "subtree_fuel ?n t (rootRef t) = rootRef t # rest"
    by (cases ?n) simp_all
  have d: "distinct (rootRef t # rest)"
    using distinct_subtree_fuel [OF v, of ?n "rootRef t"] rest by simp
  have pf: "parents_first t {rootRef t} rest"
  proof (cases ?n)
    case 0
    with rest show ?thesis by simp
  next
    case (Suc m)
    with rest have r: "rest = concat (map (subtree_fuel m t) (children_of t (rootRef t)))"
      by simp
    show ?thesis
      unfolding r
    proof (rule parents_first_concat [where r = "rootRef t"])
      fix c S' assume "c \<in> set (children_of t (rootRef t))" "rootRef t \<in> S'"
      then have "\<exists>p\<in>S'. parent t c = Some p"
        using child_iff_parent [OF v] by blast
      then show "parents_first t S' (subtree_fuel m t c)"
        by (rule parents_first_subtree [OF v])
    qed simp
  qed
  have "set (subtreeRefs t (rootRef t)) = set (map fst (nodes t))"
  proof (intro set_eqI iffI)
    fix x assume "x \<in> set (subtreeRefs t (rootRef t))"
    then have "(rootRef t, x) \<in> (child_rel t)\<^sup>*"
      by (simp add: subtreeRefs_reachable)
    then show "x \<in> set (map fst (nodes t))"
    proof (cases rule: rtranclE)
      case base
      then show ?thesis using valid_tree_root [OF v] by simp
    next
      case (step y)
      then have "x \<in> set (children_of t y)"
        by (simp add: child_rel_def)
      from valid_child(2) [OF v this] show ?thesis .
    qed
  next
    fix x assume "x \<in> set (map fst (nodes t))"
    then show "x \<in> set (subtreeRefs t (rootRef t))"
      using all_reachable [OF v] by (simp add: subtreeRefs_reachable)
  qed
  with rest d pf show ?thesis
    by (simp add: subtreeRefs_def)
qed

subsection \<open>Serialization\<close>

text \<open>
  The records are written in pre-order. In the pre-order of a valid tree the children of
  a ref stand in the order of its child list: this is what lets \<open>fromSerializable\<close>
  rebuild every child list, in its order, from the parent refs of the records.
\<close>

lemma concat_if_one:
  assumes "distinct cs"
      and "\<And>a b. a \<in> set cs \<Longrightarrow> b \<in> set cs \<Longrightarrow> Q a \<Longrightarrow> Q b \<Longrightarrow> a = b"
  shows "concat (map (\<lambda>c. if Q c then C else []) cs) = (if \<exists>c\<in>set cs. Q c then C else [])"
  using assms
proof (induction cs)
  case Nil
  show ?case by simp
next
  case (Cons c cs)
  have IH: "concat (map (\<lambda>c. if Q c then C else []) cs) = (if \<exists>c\<in>set cs. Q c then C else [])"
    using Cons.prems by (intro Cons.IH) auto
  show ?case
  proof (cases "Q c")
    case True
    have "\<not> (\<exists>d\<in>set cs. Q d)"
    proof
      assume "\<exists>d\<in>set cs. Q d"
      then obtain d where d: "d \<in> set cs" "Q d"
        by blast
      then have "c = d"
        using Cons.prems(2) [of c d] True by simp
      with d(1) Cons.prems(1) show False
        by simp
    qed
    with True IH show ?thesis
      by simp
  next
    case False
    with IH show ?thesis
      by simp
  qed
qed

lemma not_in_child_subtree:
  assumes v: "valid_tree t" and c: "c \<in> set (children_of t r)"
  shows "r \<notin> set (subtree_fuel n t c)"
proof
  assume "r \<in> set (subtree_fuel n t c)"
  then have "(c, r) \<in> (child_rel t)\<^sup>*"
    by (rule subtree_fuel_sound)
  moreover from c have "(r, c) \<in> child_rel t"
    by (simp add: child_rel_def)
  ultimately have "(r, r) \<in> (child_rel t)\<^sup>+"
    by (rule rtrancl_into_trancl2 [rotated])
  with valid_tree_acyclic [OF v] show False
    by (simp add: acyclic_def)
qed

lemma filter_children_fuel:
  assumes v: "valid_tree t"
  shows "filter (\<lambda>c. parent t c = Some r) (subtree_fuel n t x) =
     (if parent t x = Some r then [x] else []) @
     (case n of 0 \<Rightarrow> []
      | Suc m \<Rightarrow> if r \<in> set (subtree_fuel m t x) then children_of t r else [])"
proof (induction n arbitrary: x)
  case 0
  show ?case by simp
next
  case (Suc n)
  let ?cs = "children_of t x"
  let ?G = "\<lambda>c. (if parent t c = Some r then [c] else []) @
     (case n of 0 \<Rightarrow> []
      | Suc m \<Rightarrow> if r \<in> set (subtree_fuel m t c) then children_of t r else [])"
  have step: "filter (\<lambda>c. parent t c = Some r) (subtree_fuel (Suc n) t x) =
      (if parent t x = Some r then [x] else []) @ concat (map ?G ?cs)"
    by (simp add: filter_concat comp_def Suc.IH)
  have "concat (map ?G ?cs) = (if r \<in> set (subtree_fuel n t x) then children_of t r else [])"
  proof (cases "x = r")
    case True
    have eq: "map ?G ?cs = map (\<lambda>c. [c]) ?cs"
    proof (rule map_cong [OF refl])
      fix c assume c: "c \<in> set ?cs"
      then have "parent t c = Some r"
        using child_iff_parent [OF v] True by simp
      moreover have "\<And>m. r \<notin> set (subtree_fuel m t c)"
        using not_in_child_subtree [OF v] c True by simp
      ultimately show "?G c = [c]"
        by (simp split: nat.splits)
    qed
    have "concat (map ?G ?cs) = children_of t r"
      unfolding eq using True by simp
    then show ?thesis
      using True by (simp add: subtree_fuel_head)
  next
    case False
    have notP: "\<And>c. c \<in> set ?cs \<Longrightarrow> parent t c \<noteq> Some r"
      using child_iff_parent [OF v] False by auto
    show ?thesis
    proof (cases n)
      case 0
      have eq: "map ?G ?cs = map (\<lambda>c. []) ?cs"
        by (rule map_cong [OF refl]) (simp add: 0 notP)
      have "concat (map ?G ?cs) = []"
        unfolding eq by simp
      then show ?thesis
        using 0 False by simp
    next
      case (Suc m)
      let ?Q = "\<lambda>c. r \<in> set (subtree_fuel m t c)"
      have eq: "map ?G ?cs = map (\<lambda>c. if ?Q c then children_of t r else []) ?cs"
        by (rule map_cong [OF refl]) (simp add: Suc notP)
      have A: "concat (map ?G ?cs) = (if \<exists>c\<in>set ?cs. ?Q c then children_of t r else [])"
        unfolding eq
      proof (rule concat_if_one)
        show "distinct ?cs"
          by (rule distinct_children_of [OF v])
      next
        fix a b assume ab: "a \<in> set ?cs" "b \<in> set ?cs" "?Q a" "?Q b"
        show "a = b"
        proof (rule ccontr)
          assume ne: "a \<noteq> b"
          have "(x, a) \<in> child_rel t" "(x, b) \<in> child_rel t"
            using ab(1,2) by (simp_all add: child_rel_def)
          moreover have "(a, r) \<in> (child_rel t)\<^sup>*" "(b, r) \<in> (child_rel t)\<^sup>*"
            using ab(3,4) by (simp_all add: subtree_fuel_sound)
          ultimately show False
            using siblings_disjoint [OF v _ _ ne] by blast
        qed
      qed
      have B: "r \<in> set (subtree_fuel n t x) \<longleftrightarrow> (\<exists>c\<in>set ?cs. ?Q c)"
        using False by (auto simp add: Suc)
      show ?thesis
        unfolding A B by (rule refl)
    qed
  qed
  with step show ?case
    by simp
qed

lemma filter_children_preorder:
  assumes v: "valid_tree t"
  shows "filter (\<lambda>c. parent t c = Some r) (subtreeRefs t (rootRef t)) = children_of t r"
proof -
  have f: "filter (\<lambda>c. parent t c = Some r) (subtreeRefs t (rootRef t)) =
      (case edge_count t of 0 \<Rightarrow> []
       | Suc m \<Rightarrow> if r \<in> set (subtree_fuel m t (rootRef t)) then children_of t r else [])"
    unfolding subtreeRefs_def filter_children_fuel [OF v]
    by (simp add: root_parent_None [OF v])
  show ?thesis
  proof (cases "children_of t r")
    case Nil
    then show ?thesis
      using f by (simp split: nat.splits)
  next
    case (Cons c cs)
    then have c: "c \<in> set (children_of t r)"
      by simp
    then have e: "(r, c) \<in> child_rel t"
      by (simp add: child_rel_def)
    have "(rootRef t, c) \<in> (child_rel t)\<^sup>*"
      using valid_child(2) [OF v c] by (rule all_reachable [OF v])
    then obtain k where k: "k \<le> card (child_rel t)" "(rootRef t, c) \<in> child_rel t ^^ k"
      unfolding rtrancl_finite_eq_relpow [OF finite_child_rel] by auto
    have "c \<noteq> rootRef t"
      using valid_child(3) [OF v c] .
    with k(2) obtain j where j: "k = Suc j"
      by (cases k) auto
    with k(2) obtain y where y: "(rootRef t, y) \<in> child_rel t ^^ j" "(y, c) \<in> child_rel t"
      by auto
    from y(2) e have "y = r"
      by (rule unique_parent [OF v])
    have "j < edge_count t"
      using k(1) j card_child_rel [of t] by simp
    then obtain m where m: "edge_count t = Suc m" "j \<le> m"
      by (cases "edge_count t") auto
    have "r \<in> set (subtree_fuel m t (rootRef t))"
      using y(1) m(2) unfolding \<open>y = r\<close> by (rule subtree_fuel_relpow)
    then show ?thesis
      using f m by simp
  qed
qed

lemma preorder_distinct: "valid_tree t \<Longrightarrow> distinct (subtreeRefs t (rootRef t))"
  unfolding subtreeRefs_def by (rule distinct_subtree_fuel)

lemma preorder_set:
  assumes v: "valid_tree t"
  shows "set (subtreeRefs t (rootRef t)) = set (map fst (nodes t))"
proof -
  from order_of_valid_tree [OF v] obtain rest where
    "subtreeRefs t (rootRef t) = rootRef t # rest"
    "set (rootRef t # rest) = set (map fst (nodes t))"
    by blast
  then show ?thesis
    by simp
qed

lemma map_of_map_key:
  "map_of (map (\<lambda>k. (k, f k)) ks) k = (if k \<in> set ks then Some (f k) else None)"
  by (induction ks) auto

lemma find_map_key:
  "find (\<lambda>kc. P (fst kc) (snd kc)) (map (\<lambda>k. (k, g k)) ks)
     = map_option (\<lambda>k. (k, g k)) (find (\<lambda>k. P k (g k)) ks)"
  by (induction ks) auto

lemma find_this: "p \<in> set ks \<Longrightarrow> find (\<lambda>k. p = k) ks = Some p"
  by (induction ks) auto

lemma round_trip_records:
  assumes v: "valid_tree t"
  shows "s_records (toSerializable t) =
     map (\<lambda>r. \<lparr>r_ref = r, r_parentRef = parent t r, r_kind = n_kind (the (node t r)),
                r_params = n_params (the (node t r)), r_flags = n_flags (the (node t r))\<rparr>)
       (subtreeRefs t (rootRef t))"
proof -
  let ?mk = "\<lambda>r. \<lparr>r_ref = r, r_parentRef = parent t r, r_kind = n_kind (the (node t r)),
                r_params = n_params (the (node t r)), r_flags = n_flags (the (node t r))\<rparr>"
  have eq: "map (node_record t) (subtreeRefs t (rootRef t)) = map (\<lambda>r. [?mk r]) (subtreeRefs t (rootRef t))"
  proof (rule map_cong [OF refl])
    fix r assume "r \<in> set (subtreeRefs t (rootRef t))"
    then have "r \<in> set (map fst (nodes t))"
      using preorder_set [OF v] by simp
    then have "node t r \<noteq> None"
      unfolding node_def map_of_eq_None_iff by simp
    then show "node_record t r = [?mk r]"
      by (auto simp add: node_record_def)
  qed
  show ?thesis
    unfolding toSerializable_def eq by simp
qed

lemma round_trip_nodes:
  assumes v: "valid_tree t"
  shows "nodes (fromSerializable (toSerializable t)) =
     map (\<lambda>r. (r, \<lparr>n_ref = r, n_kind = n_kind (the (node t r)), n_params = n_params (the (node t r)),
                    n_version = 0, n_flags = n_flags (the (node t r))\<rparr>))
       (subtreeRefs t (rootRef t))"
  by (simp add: fromSerializable_def round_trip_records [OF v] comp_def)

lemma round_trip_children:
  assumes v: "valid_tree t"
  shows "children (fromSerializable (toSerializable t)) =
     map (\<lambda>r. (r, children_of t r)) (subtreeRefs t (rootRef t))"
  by (simp add: fromSerializable_def round_trip_records [OF v] comp_def filter_map
      filter_children_preorder [OF v])

lemma round_trip_node:
  assumes v: "valid_tree t"
  shows "node (fromSerializable (toSerializable t)) r = map_option (\<lambda>n. n\<lparr>n_version := 0\<rparr>) (node t r)"
proof (cases "node t r")
  case None
  then have "r \<notin> set (map fst (nodes t))"
    unfolding node_def map_of_eq_None_iff by simp
  then have "r \<notin> set (subtreeRefs t (rootRef t))"
    using preorder_set [OF v] by simp
  then show ?thesis
    using None by (simp add: node_def [of "fromSerializable (toSerializable t)"]
        round_trip_nodes [OF v] map_of_map_key)
next
  case (Some n)
  then have "(r, n) \<in> set (nodes t)"
    by (auto simp add: node_def dest: map_of_SomeD)
  then have ref: "n_ref n = r" and "r \<in> set (map fst (nodes t))"
    using valid_tree_node_ref [OF v] by force+
  then have "r \<in> set (subtreeRefs t (rootRef t))"
    using preorder_set [OF v] by simp
  then show ?thesis
    using Some ref by (simp add: node_def [of "fromSerializable (toSerializable t)"]
        round_trip_nodes [OF v] map_of_map_key)
qed

lemma round_trip_children_of:
  assumes v: "valid_tree t"
  shows "children_of (fromSerializable (toSerializable t)) r = children_of t r"
proof (cases "r \<in> set (subtreeRefs t (rootRef t))")
  case True
  then show ?thesis
    by (simp add: children_of_def [of "fromSerializable (toSerializable t)"]
        round_trip_children [OF v] map_of_map_key)
next
  case False
  then have "r \<notin> set (map fst (children t))"
    using preorder_set [OF v] valid_tree_same_refs [OF v] by simp
  then have "map_of (children t) r = None"
    by (simp add: map_of_eq_None_iff)
  then have "children_of t r = []"
    by (simp add: children_of_def)
  then show ?thesis
    using False by (simp add: children_of_def [of "fromSerializable (toSerializable t)"]
        round_trip_children [OF v] map_of_map_key)
qed

lemma round_trip_child_rel:
  "valid_tree t \<Longrightarrow> child_rel (fromSerializable (toSerializable t)) = child_rel t"
  by (simp add: child_rel_def round_trip_children_of)

lemma round_trip_parent:
  assumes v: "valid_tree t"
  shows "parent (fromSerializable (toSerializable t)) r = parent t r"
proof -
  let ?L = "subtreeRefs t (rootRef t)"
  have p': "parent (fromSerializable (toSerializable t)) r = find (\<lambda>k. parent t r = Some k) ?L"
    unfolding parent_def [of "fromSerializable (toSerializable t)"] round_trip_children [OF v]
    using find_map_key [of "\<lambda>k cs. r \<in> set cs" "children_of t" ?L]
    by (simp add: option.map_comp comp_def child_iff_parent [OF v] option.map_ident)
  show ?thesis
  proof (cases "parent t r")
    case None
    then show ?thesis
      unfolding p' by (simp add: find_None_iff)
  next
    case (Some p)
    from parent_in_tree [OF v Some] have "p \<in> set ?L"
      using preorder_set [OF v] by simp
    then have "find (\<lambda>k. p = k) ?L = Some p"
      by (rule find_this)
    then show ?thesis
      unfolding p' Some by simp
  qed
qed

lemma round_trip_subtree_fuel:
  assumes v: "valid_tree t"
  shows "subtree_fuel n (fromSerializable (toSerializable t)) r = subtree_fuel n t r"
proof (induction n arbitrary: r)
  case 0
  show ?case by simp
next
  case (Suc n)
  have "subtree_fuel n (fromSerializable (toSerializable t)) = subtree_fuel n t"
    by (rule ext) (rule Suc.IH)
  then show ?case
    by (simp add: round_trip_children_of [OF v])
qed

lemma entries_by_key:
  "distinct (map fst al) \<Longrightarrow>
   map snd al = map (\<lambda>k. case map_of al k of None \<Rightarrow> [] | Some cs \<Rightarrow> cs) (map fst al)"
proof (induction al)
  case Nil
  show ?case by simp
next
  case (Cons e al)
  have "map (\<lambda>k. case map_of (e # al) k of None \<Rightarrow> [] | Some cs \<Rightarrow> cs) (map fst al)
      = map (\<lambda>k. case map_of al k of None \<Rightarrow> [] | Some cs \<Rightarrow> cs) (map fst al)"
  proof (rule map_cong [OF refl])
    fix k assume "k \<in> set (map fst al)"
    then have "k \<noteq> fst e"
      using Cons.prems by force
    then show "(case map_of (e # al) k of None \<Rightarrow> [] | Some cs \<Rightarrow> cs)
        = (case map_of al k of None \<Rightarrow> [] | Some cs \<Rightarrow> cs)"
      by (cases e) simp
  qed
  with Cons show ?case
    by (cases e) simp
qed

lemma children_by_key:
  "valid_tree t \<Longrightarrow> map snd (children t) = map (children_of t) (map fst (children t))"
  using entries_by_key [OF valid_tree_distinct_children, of t]
  by (simp add: children_of_def [abs_def])

lemma sum_list_permuted:
  fixes f :: "'a \<Rightarrow> nat"
  assumes "distinct xs" "distinct ys" "set xs = set ys"
  shows "sum_list (map f xs) = sum_list (map f ys)"
  using assms by (simp add: sum_list_distinct_conv_sum_set)

lemma round_trip_count:
  assumes v: "valid_tree t"
  shows "length (filter P (concat (map snd (children (fromSerializable (toSerializable t))))))
       = length (filter P (concat (map snd (children t))))"
proof -
  let ?L = "subtreeRefs t (rootRef t)"
  let ?K = "map fst (children t)"
  let ?f = "\<lambda>k. length (filter P (children_of t k))"
  have "length (filter P (concat (map snd (children (fromSerializable (toSerializable t))))))
      = sum_list (map ?f ?L)"
    by (simp add: round_trip_children [OF v] comp_def filter_concat length_concat)
  also have "\<dots> = sum_list (map ?f ?K)"
    using preorder_distinct [OF v] valid_tree_distinct_children [OF v]
      preorder_set [OF v] valid_tree_same_refs [OF v]
    by (intro sum_list_permuted) simp_all
  also have "\<dots> = length (filter P (concat (map snd (children t))))"
    unfolding children_by_key [OF v]
    by (simp add: comp_def filter_concat length_concat)
  finally show ?thesis .
qed

lemma round_trip_edge_count:
  assumes v: "valid_tree t"
  shows "edge_count (fromSerializable (toSerializable t)) = edge_count t"
  using round_trip_count [OF v, of "\<lambda>c. True"] by (simp add: edge_count_def)

lemma round_trip_subtreeRefs:
  "valid_tree t \<Longrightarrow> subtreeRefs (fromSerializable (toSerializable t)) r = subtreeRefs t r"
  by (simp add: subtreeRefs_def round_trip_edge_count round_trip_subtree_fuel)

lemma round_trip_valid:
  assumes v: "valid_tree t"
  shows "valid_tree (fromSerializable (toSerializable t))"
proof -
  let ?t' = "fromSerializable (toSerializable t)"
  let ?L = "subtreeRefs t (rootRef t)"
  have keys: "map fst (nodes ?t') = ?L" "map fst (children ?t') = ?L"
    by (simp_all add: round_trip_nodes [OF v] round_trip_children [OF v] comp_def)
  have root: "rootRef ?t' = rootRef t"
    by (simp add: fromSerializable_def toSerializable_def)
  have L: "set ?L = set (map fst (nodes t))"
    by (rule preorder_set [OF v])
  have edges: "set (concat (map snd (children ?t'))) = set (concat (map snd (children t)))"
  proof (intro set_eqI)
    fix c
    have "c \<in> set (concat (map snd (children ?t'))) \<longleftrightarrow>
        0 < length (filter (\<lambda>x. x = c) (concat (map snd (children ?t'))))"
      by (simp add: filter_empty_conv)
    also have "\<dots> \<longleftrightarrow> 0 < length (filter (\<lambda>x. x = c) (concat (map snd (children t))))"
      by (simp only: round_trip_count [OF v])
    also have "\<dots> \<longleftrightarrow> c \<in> set (concat (map snd (children t)))"
      by (simp add: filter_empty_conv)
    finally show "c \<in> set (concat (map snd (children ?t'))) \<longleftrightarrow>
        c \<in> set (concat (map snd (children t)))" .
  qed
  have 1: "distinct (map fst (nodes ?t'))" "distinct (map fst (children ?t'))"
    unfolding keys by (rule preorder_distinct [OF v])+
  have 2: "set (map fst (children ?t')) = set (map fst (nodes ?t'))"
    unfolding keys by simp
  have 3: "\<forall>kn\<in>set (nodes ?t'). n_ref (snd kn) = fst kn"
    by (auto simp add: round_trip_nodes [OF v])
  have 4: "rootRef ?t' \<in> set (map fst (nodes ?t'))"
    unfolding keys root L by (rule valid_tree_root [OF v])
  have 5: "rootRef ?t' \<notin> set (concat (map snd (children ?t')))"
    unfolding edges root by (rule valid_tree_root_no_parent [OF v])
  have 6: "\<forall>r\<in>set (map fst (nodes ?t')). r \<noteq> rootRef ?t' \<longrightarrow>
      length (filter (\<lambda>c. c = r) (concat (map snd (children ?t')))) = 1"
    unfolding keys root L round_trip_count [OF v]
    using valid_tree_one_parent [OF v] by blast
  have 7: "set (concat (map snd (children ?t'))) \<subseteq> set (map fst (nodes ?t'))"
    unfolding edges keys L by (rule valid_tree_children_nodes [OF v])
  have 8: "acyclic (child_rel ?t')"
    unfolding round_trip_child_rel [OF v] by (rule valid_tree_acyclic [OF v])
  show ?thesis
    unfolding valid_tree_def by (intro conjI 1 2 3 4 5 6 7 8)
qed

lemma moved_tree_child_rel:
  "child_rel moved_tree = {(''R'', ''x''), (''R'', ''b''), (''R'', ''a''), (''a'', ''ar'')}"
  by (auto simp add: child_rel_def children_of_def moved_tree_def split: if_splits)

lemma valid_moved_tree: "valid_tree moved_tree"
proof -
  let ?rank = "\<lambda>r. if r = ''R'' then 2 else if r = ''a'' then 1 else (0::nat)"
  have "acyclic (child_rel moved_tree)"
  proof (rule acyclicI_order [where f = ?rank])
    fix a b assume "(a, b) \<in> child_rel moved_tree"
    then show "?rank b < ?rank a"
      by (auto simp add: moved_tree_child_rel)
  qed
  moreover have "rootRef moved_tree = ''R''"
    and "map fst (nodes moved_tree) = [''R'', ''a'', ''x'', ''b'', ''ar'']"
    and "map fst (children moved_tree) = [''R'', ''a'', ''x'', ''b'', ''ar'']"
    and "concat (map snd (children moved_tree)) = [''x'', ''b'', ''a'', ''ar'']"
    and "\<forall>kn\<in>set (nodes moved_tree). n_ref (snd kn) = fst kn"
    by (simp_all add: moved_tree_def)
  ultimately show ?thesis
    unfolding valid_tree_def by simp
qed

lemma moved_tree_order:
  "subtreeRefs moved_tree ''R'' = [''R'', ''x'', ''b'', ''a'', ''ar'']"
  by (simp add: subtreeRefs_def edge_count_def moved_tree_def eval_nat_numeral children_of_def)

text \<open>
  C2. For every valid tree, loading what \<open>toSerializable\<close> wrote gives a structurally
  equal tree: the same root, the same reference ids, the same parent edges, at every ref
  the same child list in the same order, and at every ref the same kind, parameters and
  flags. The loaded tree is valid again and its pre-order traversal from every ref is
  that of the original. The loaded node is the original node with its version reset to
  0; the serialized format has no field for a version or for a computed object. The
  example below is a tree in which a reparent has made the order of the root's children
  differ from the order of the node mapping.
\<close>

theorem serialization_round_trip:
  assumes "valid_tree t"
  shows "structurally_equal t (fromSerializable (toSerializable t))
       \<and> valid_tree (fromSerializable (toSerializable t))
       \<and> (\<forall>r. subtreeRefs (fromSerializable (toSerializable t)) r = subtreeRefs t r)
       \<and> (\<forall>r. node (fromSerializable (toSerializable t)) r
                = map_option (\<lambda>n. n\<lparr>n_version := 0\<rparr>) (node t r))"
proof -
  let ?t' = "fromSerializable (toSerializable t)"
  have nd: "\<And>r. node ?t' r = map_option (\<lambda>n. n\<lparr>n_version := 0\<rparr>) (node t r)"
    by (rule round_trip_node [OF assms])
  have root: "rootRef ?t' = rootRef t"
    by (simp add: fromSerializable_def toSerializable_def)
  have keys: "set (map fst (nodes ?t')) = set (map fst (nodes t))"
    using preorder_set [OF assms] by (simp add: round_trip_nodes [OF assms] comp_def)
  have "structurally_equal t ?t'"
    unfolding structurally_equal_def
    using root keys round_trip_parent [OF assms] round_trip_children_of [OF assms]
    by (simp add: nd option.map_comp comp_def)
  then show ?thesis
    using nd round_trip_valid [OF assms] round_trip_subtreeRefs [OF assms] by simp
qed

theorem serialization_round_trip_witness:
  "valid_tree moved_tree
   \<and> map fst (nodes moved_tree) = [''R'', ''a'', ''x'', ''b'', ''ar'']
   \<and> structurally_equal moved_tree (fromSerializable (toSerializable moved_tree))
   \<and> children_of (fromSerializable (toSerializable moved_tree)) ''R'' = [''x'', ''b'', ''a'']
   \<and> subtreeRefs (fromSerializable (toSerializable moved_tree)) ''R''
       = [''R'', ''x'', ''b'', ''a'', ''ar'']
   \<and> map_option n_version (node moved_tree ''x'') = Some 3
   \<and> node (fromSerializable (toSerializable moved_tree)) ''x''
       = Some \<lparr>n_ref = ''x'', n_kind = ''create-square'', n_params = SquareParams \<lparr>sq_a = 15\<rparr>,
               n_version = 0, n_flags = no_flags\<rparr>
   \<and> map_option n_flags (node (fromSerializable (toSerializable moved_tree)) ''b'')
       = Some (no_flags\<lparr>hidden := True\<rparr>)"
proof -
  let ?t' = "fromSerializable (toSerializable moved_tree)"
  note rt = serialization_round_trip [OF valid_moved_tree]
  have se: "structurally_equal moved_tree ?t'"
    using rt by simp
  have keys: "map fst (nodes moved_tree) = [''R'', ''a'', ''x'', ''b'', ''ar'']"
    by (simp add: moved_tree_def)
  have "children_of ?t' ''R'' = children_of moved_tree ''R''"
    using se by (simp add: structurally_equal_def)
  then have ch: "children_of ?t' ''R'' = [''x'', ''b'', ''a'']"
    by (simp add: children_of_def moved_tree_def)
  have "subtreeRefs ?t' ''R'' = subtreeRefs moved_tree ''R''"
    using rt by simp
  then have ord: "subtreeRefs ?t' ''R'' = [''R'', ''x'', ''b'', ''a'', ''ar'']"
    by (simp add: moved_tree_order)
  have nx: "node moved_tree ''x'' =
      Some \<lparr>n_ref = ''x'', n_kind = ''create-square'', n_params = SquareParams \<lparr>sq_a = 15\<rparr>,
            n_version = 3, n_flags = no_flags\<rparr>"
    and nb: "node moved_tree ''b'' =
      Some \<lparr>n_ref = ''b'', n_kind = ''create-circle'', n_params = CircleParams \<lparr>circ_r = 1\<rparr>,
            n_version = 0, n_flags = no_flags\<lparr>hidden := True\<rparr>\<rparr>"
    by (simp_all add: node_def moved_tree_def)
  have x: "node ?t' ''x'' =
      Some \<lparr>n_ref = ''x'', n_kind = ''create-square'', n_params = SquareParams \<lparr>sq_a = 15\<rparr>,
            n_version = 0, n_flags = no_flags\<rparr>"
    using rt by (simp add: nx)
  have b: "map_option n_flags (node ?t' ''b'') = Some (no_flags\<lparr>hidden := True\<rparr>)"
    using rt by (simp add: nb)
  have v3: "map_option n_version (node moved_tree ''x'') = Some 3"
    by (simp add: nx)
  show ?thesis
    by (intro conjI valid_moved_tree keys se ch ord v3 x b)
qed

section \<open>The square and area scenario\<close>

lemma scenario_commit1:
  assumes root: "lookup reg ''root'' = Some RootTransform"
      and sq: "lookup reg squareKind = Some (registered square_schema CreateSquare)"
      and ar: "lookup reg areaKind = Some (registered empty_schema CaclArea)"
      and fresh: "areaRef \<noteq> ''R''" "areaRef \<noteq> ''sq''"
  shows "commit reg (tree (create ''R'' rootObject)) (scenario_apply squareKind areaKind areaRef) =
     Inr (\<lparr>rootRef = ''R'',
           nodes = [(''R'', \<lparr>n_ref = ''R'', n_kind = ''root'', n_params = NoParams, n_version = 0, n_flags = no_flags\<rparr>),
                    (''sq'', \<lparr>n_ref = ''sq'', n_kind = squareKind, n_params = SquareParams \<lparr>sq_a = 10\<rparr>, n_version = 0, n_flags = no_flags\<rparr>),
                    (areaRef, \<lparr>n_ref = areaRef, n_kind = areaKind, n_params = NoParams, n_version = 0, n_flags = no_flags\<rparr>)],
           children = [(''R'', [''sq'']), (''sq'', [areaRef]), (areaRef, [])]\<rparr>,
          \<lparr>cs_added = [''sq'', areaRef], cs_updated = [], cs_removed = []\<rparr>)"
  using fresh fresh [symmetric]
  by (simp add: commit_def scenario_apply_def create_def applyTransform_def node_def root sq ar
      RootTransform_def registered_def CreateSquare_def CaclArea_def children_of_def no_changes_def)

lemma scenario_commit1_tree:
  assumes root: "lookup reg ''root'' = Some RootTransform"
      and sq: "lookup reg squareKind = Some (registered square_schema CreateSquare)"
      and ar: "lookup reg areaKind = Some (registered empty_schema CaclArea)"
      and fresh: "areaRef \<noteq> ''R''" "areaRef \<noteq> ''sq''"
  shows "commit reg (tree (create ''R'' rootObject)) (scenario_apply squareKind areaKind areaRef) =
     Inr (scenario_tree squareKind areaKind areaRef 10 0, \<lparr>cs_added = [''sq'', areaRef], cs_updated = [], cs_removed = []\<rparr>)"
  using scenario_commit1 [OF root sq ar fresh] by (simp add: scenario_tree_def)

lemma scenario_commit2:
  assumes fresh: "areaRef \<noteq> ''R''" "areaRef \<noteq> ''sq''"
  shows "commit reg (scenario_tree squareKind areaKind areaRef 10 0) scenario_update =
     Inr (scenario_tree squareKind areaKind areaRef 15 1, \<lparr>cs_added = [], cs_updated = [''sq''], cs_removed = []\<rparr>)"
  using fresh fresh [symmetric]
  by (simp add: commit_def scenario_update_def updateParams_def scenario_tree_node [OF fresh] no_changes_def)
     (simp add: scenario_tree_def)

lemma scenario_reconcile1:
  assumes sq: "lookup reg squareKind = Some (registered square_schema CreateSquare)"
      and ar: "lookup reg areaKind = Some (registered empty_schema CaclArea)"
      and fresh: "areaRef \<noteq> ''R''" "areaRef \<noteq> ''sq''"
  shows "reconcile reg (create ''R'' rootObject) (scenario_tree squareKind areaKind areaRef 10 0)
            \<lparr>cs_added = [''sq'', areaRef], cs_updated = [], cs_removed = []\<rparr> =
         \<lparr>tree = scenario_tree squareKind areaKind areaRef 10 0,
          cells = [''R'' \<mapsto> ok_cell 0 rootObject, ''sq'' \<mapsto> square_cell 10 0, areaRef \<mapsto> area_cell 100],
          events = [CellCreated ''sq'' (square_cell 10 0), CellCreated areaRef (area_cell 100)]\<rparr>"
  using fresh fresh [symmetric]
  by (simp add: reconcile_def scenario_tree_root scenario_tree_order [OF fresh] step_def
      scenario_tree_parent [OF fresh]
      scenario_tree_node [OF fresh] create_def drop_removed_def ok_object_def ok_cell_def
      attempt_def run_apply_def sq ar registered_def CreateSquare_def CaclArea_def
      square_cell_def area_cell_def old_params_def fun_eq_iff Let_def)

lemma scenario_reconcile2:
  assumes sq: "lookup reg squareKind = Some (registered square_schema CreateSquare)"
      and ar: "lookup reg areaKind = Some (registered empty_schema CaclArea)"
      and fresh: "areaRef \<noteq> ''R''" "areaRef \<noteq> ''sq''"
  shows "reconcile reg
            \<lparr>tree = scenario_tree squareKind areaKind areaRef 10 0,
             cells = [''R'' \<mapsto> ok_cell 0 rootObject, ''sq'' \<mapsto> square_cell 10 0, areaRef \<mapsto> area_cell 100],
             events = evs\<rparr>
            (scenario_tree squareKind areaKind areaRef 15 v)
            \<lparr>cs_added = [], cs_updated = [''sq''], cs_removed = []\<rparr> =
         \<lparr>tree = scenario_tree squareKind areaKind areaRef 15 v,
          cells = [''R'' \<mapsto> ok_cell 0 rootObject, ''sq'' \<mapsto> square_cell 15 v, areaRef \<mapsto> area_cell 225],
          events = evs @ [CellUpdated ''sq'' (square_cell 15 v), CellUpdated areaRef (area_cell 225)]\<rparr>"
  using fresh fresh [symmetric]
  by (simp add: reconcile_def scenario_tree_root scenario_tree_order [OF fresh] step_def
      scenario_tree_parent [OF fresh]
      scenario_tree_node [OF fresh] drop_removed_def ok_object_def ok_cell_def
      attempt_def run_update_def sq ar registered_def CreateSquare_def CaclArea_def
      square_cell_def area_cell_def old_params_def fun_eq_iff Let_def)

text \<open>
  C1. In any registry that knows \<open>CreateSquare\<close> and \<open>CaclArea\<close> (under whatever kind
  identifiers) and the root transform: from the tree with only the root \<open>R\<close>, the two
  \<open>applyTransform\<close> edits commit and reconcile to a cell \<open>sq\<close> that is \<open>ok\<close> with object
  \<open>{a: 10}\<close> and a child cell that is \<open>ok\<close> with object \<open>{volume: 100}\<close>. Then
  \<open>updateParams(sq, {a: 15})\<close> commits and reconciles: the \<open>update\<close> of \<open>CreateSquare\<close>
  answers \<open>Updated\<close>, the cell \<open>sq\<close> holds \<open>{a: 15}\<close>, the area cell holds
  \<open>{volume: 225}\<close>, and the events of this reconciliation are exactly one \<open>updated\<close>
  event for each of the two cells.
\<close>

theorem square_area_scenario:
  assumes root: "lookup reg ''root'' = Some RootTransform"
      and sq: "lookup reg squareKind = Some (registered square_schema CreateSquare)"
      and ar: "lookup reg areaKind = Some (registered empty_schema CaclArea)"
      and fresh: "areaRef \<noteq> ''R''" "areaRef \<noteq> ''sq''"
  shows "\<exists>s1 s2.
      transact reg (create ''R'' root_object) (scenario_apply squareKind areaKind areaRef) = (s1, None)
    \<and> cells s1 ''sq'' = Some (ok_cell 0 (Square \<lparr>label = SquareLabel 10\<rparr> \<lparr>sq_a = 10\<rparr>))
    \<and> children_of (tree s1) ''sq'' = [areaRef]
    \<and> cells s1 areaRef = Some (ok_cell 0 (Area \<lparr>label = Text ''Area''\<rparr> \<lparr>volume = 100\<rparr>))
    \<and> transact reg s1 scenario_update = (s2, None)
    \<and> t_update CreateSquare root_object (Square \<lparr>label = SquareLabel 10\<rparr> \<lparr>sq_a = 10\<rparr>)
          \<lparr>sq_a = 10\<rparr> \<lparr>sq_a = 15\<rparr>
        = Inr (Updated, Square \<lparr>label = SquareLabel 15\<rparr> \<lparr>sq_a = 15\<rparr>)
    \<and> cells s2 ''sq'' = Some (ok_cell 1 (Square \<lparr>label = SquareLabel 15\<rparr> \<lparr>sq_a = 15\<rparr>))
    \<and> children_of (tree s2) ''sq'' = [areaRef]
    \<and> cells s2 areaRef = Some (ok_cell 0 (Area \<lparr>label = Text ''Area''\<rparr> \<lparr>volume = 225\<rparr>))
    \<and> events s2 = events s1 @
          [CellUpdated ''sq'' (ok_cell 1 (Square \<lparr>label = SquareLabel 15\<rparr> \<lparr>sq_a = 15\<rparr>)),
           CellUpdated areaRef (ok_cell 0 (Area \<lparr>label = Text ''Area''\<rparr> \<lparr>volume = 225\<rparr>))]"
proof -
  let ?s1 = "\<lparr>tree = scenario_tree squareKind areaKind areaRef 10 0,
             cells = [''R'' \<mapsto> ok_cell 0 root_object, ''sq'' \<mapsto> square_cell 10 0, areaRef \<mapsto> area_cell 100],
             events = [CellCreated ''sq'' (square_cell 10 0), CellCreated areaRef (area_cell 100)]\<rparr>"
  let ?s2 = "\<lparr>tree = scenario_tree squareKind areaKind areaRef 15 1,
          cells = [''R'' \<mapsto> ok_cell 0 root_object, ''sq'' \<mapsto> square_cell 15 1, areaRef \<mapsto> area_cell 225],
          events = [CellCreated ''sq'' (square_cell 10 0), CellCreated areaRef (area_cell 100)]
                   @ [CellUpdated ''sq'' (square_cell 15 1), CellUpdated areaRef (area_cell 225)]\<rparr>"
  have t1: "transact reg (create ''R'' root_object) (scenario_apply squareKind areaKind areaRef) = (?s1, None)"
    by (simp add: transact_def scenario_commit1_tree [OF root sq ar fresh]
        scenario_reconcile1 [OF sq ar fresh])
  have t2: "transact reg ?s1 scenario_update = (?s2, None)"
    by (simp add: transact_def scenario_commit2 [OF fresh] scenario_reconcile2 [OF sq ar fresh])
  have ch: "children_of (scenario_tree squareKind areaKind areaRef x v) ''sq'' = [areaRef]" for x v
    by (simp add: children_of_def scenario_tree_def)
  have up: "t_update CreateSquare root_object (Square \<lparr>label = SquareLabel 10\<rparr> \<lparr>sq_a = 10\<rparr>)
          \<lparr>sq_a = 10\<rparr> \<lparr>sq_a = 15\<rparr>
        = Inr (Updated, Square \<lparr>label = SquareLabel 15\<rparr> \<lparr>sq_a = 15\<rparr>)"
    by (simp add: CreateSquare_def)
  show ?thesis
    apply (rule exI [of _ ?s1])
    apply (rule exI [of _ ?s2])
    using t1 t2 ch up fresh fresh [symmetric]
    apply (simp add: square_cell_def area_cell_def)
    done
qed

theorem square_area_scenario_witness:
  "lookup test_registry ''root'' = Some RootTransform
   \<and> lookup test_registry ''create-square'' = Some (registered square_schema CreateSquare)
   \<and> lookup test_registry ''calc-area'' = Some (registered empty_schema CaclArea)
   \<and> (\<exists>s1 s2.
      transact test_registry (create ''R'' root_object)
         (scenario_apply ''create-square'' ''calc-area'' ''ar'') = (s1, None)
    \<and> cells s1 ''sq'' = Some (ok_cell 0 (Square \<lparr>label = SquareLabel 10\<rparr> \<lparr>sq_a = 10\<rparr>))
    \<and> children_of (tree s1) ''sq'' = [''ar'']
    \<and> cells s1 ''ar'' = Some (ok_cell 0 (Area \<lparr>label = Text ''Area''\<rparr> \<lparr>volume = 100\<rparr>))
    \<and> transact test_registry s1 scenario_update = (s2, None)
    \<and> t_update CreateSquare root_object (Square \<lparr>label = SquareLabel 10\<rparr> \<lparr>sq_a = 10\<rparr>)
          \<lparr>sq_a = 10\<rparr> \<lparr>sq_a = 15\<rparr>
        = Inr (Updated, Square \<lparr>label = SquareLabel 15\<rparr> \<lparr>sq_a = 15\<rparr>)
    \<and> cells s2 ''sq'' = Some (ok_cell 1 (Square \<lparr>label = SquareLabel 15\<rparr> \<lparr>sq_a = 15\<rparr>))
    \<and> children_of (tree s2) ''sq'' = [''ar'']
    \<and> cells s2 ''ar'' = Some (ok_cell 0 (Area \<lparr>label = Text ''Area''\<rparr> \<lparr>volume = 225\<rparr>))
    \<and> events s2 = events s1 @
          [CellUpdated ''sq'' (ok_cell 1 (Square \<lparr>label = SquareLabel 15\<rparr> \<lparr>sq_a = 15\<rparr>)),
           CellUpdated ''ar'' (ok_cell 0 (Area \<lparr>label = Text ''Area''\<rparr> \<lparr>volume = 225\<rparr>))])"
proof -
  have root: "lookup test_registry ''root'' = Some RootTransform"
    and sq: "lookup test_registry ''create-square'' = Some (registered square_schema CreateSquare)"
    and ar: "lookup test_registry ''calc-area'' = Some (registered empty_schema CaclArea)"
    by (simp_all add: lookup_def test_registry_def)
  have fresh: "''ar'' \<noteq> ''R''" "''ar'' \<noteq> ''sq''"
    by simp_all
  show ?thesis
    by (intro conjI root sq ar square_area_scenario [OF root sq ar fresh])
qed

section \<open>Properties of the reconciliation\<close>

subsection \<open>One step of the reconciliation\<close>











subsection \<open>The whole reconciliation\<close>


























lemma failing_state_tree: "tree failing_state = failing_tree"
  by (simp add: failing_state_def reconcile_def Let_def)


end
